theory Spec2Isabelle
  imports Main
begin

section \<open>The Canvas component: data model\<close>

text \<open>
  The component of the editor (the \<^verbatim>\<open>Canvas\<close> function of the source) keeps three
  pieces of React state, \<^verbatim>\<open>canvas\<close>, \<^verbatim>\<open>history\<close> and \<^verbatim>\<open>historyIndex\<close>, and one
  mutable object of the graphics library, the \<^verbatim>\<open>fabric.Canvas\<close> built by the
  initialisation effect. Shapes are mutable objects too, and the history stores references
  to copies of them, so shapes live in an explicit store: an address is an index into
  \<open>heap\<close>, an allocation appends to it.
\<close>

type_synonym addr = nat

text \<open>
  \<open>Rect left top width height fill stroke strokeWidth\<close> and
  \<open>Circle left top radius fill stroke strokeWidth\<close>: the attributes the source gives
  to the shapes it constructs. The numbers it gives them are integers.
\<close>

datatype shape =
    Rect int int int int string string int
  | Circle int int int string string int

text \<open>
  The \<^verbatim>\<open>fabric.Canvas\<close> object: its object collection (\<^verbatim>\<open>_objects\<close>), its active
  object (\<^verbatim>\<open>_activeObject\<close>) and whether a background image has been set.
\<close>

record fabric_canvas =
  canvas_objects :: "addr list"
  active_object :: "addr option"
  background_set :: bool

text \<open>\<^verbatim>\<open>interface HistoryState { objects: fabric.Object[]; timestamp: number }\<close>\<close>

record HistoryState =
  objects :: "addr list"
  timestamp :: nat

text \<open>
  What a handler can throw: a TypeError when it reads a property of \<^verbatim>\<open>undefined\<close>, and
  the SecurityError of \<^verbatim>\<open>toDataURL\<close> on a canvas that holds an image of another origin.
\<close>

datatype error = TypeError | SecurityError

text \<open>
  The state of one mounted component. \<open>fabricCanvas\<close> is the object created by
  \<^verbatim>\<open>new fabric.Canvas(canvasRef.current, ...)\<close>, absent when \<^verbatim>\<open>canvasRef.current\<close>
  was null at mount. \<open>canvas\<close> is the React state of that name: \<open>False\<close> is
  \<^verbatim>\<open>null\<close>, \<open>True\<close> is a reference to \<open>fabricCanvas\<close> (the only value
  \<^verbatim>\<open>setCanvas\<close> is ever called with). \<open>downloads\<close> records the files the export
  has offered for download. \<open>imageCrossOrigin\<close> says whether the address in the input
  \<^verbatim>\<open>backgroundImage\<close> is of another origin than the page, as the address the
  application passes is.
\<close>

record component =
  heap :: "shape list"
  fabricCanvas :: "fabric_canvas option"
  canvas :: bool
  history :: "HistoryState list"
  historyIndex :: int
  downloads :: "string list"
  imageCrossOrigin :: bool

text \<open>
  Every function of the component is a closure of one render: it reads the values that
  \<^verbatim>\<open>canvas\<close>, \<^verbatim>\<open>history\<close> and \<^verbatim>\<open>historyIndex\<close> had in that render, whatever
  \<^verbatim>\<open>setHistory\<close> and \<^verbatim>\<open>setHistoryIndex\<close> have been called with since. The model makes
  the captured values an argument: reads go to the \<open>closure\<close>, the setters write the
  fields of the \<open>component\<close>, which the next render will show. The reference held in
  \<^verbatim>\<open>canvas\<close> points to a mutable object, so its contents are always read from the
  component.
\<close>

record closure =
  c_canvas :: bool
  c_history :: "HistoryState list"
  c_historyIndex :: int

definition render :: "component \<Rightarrow> closure" where
  "render s = \<lparr>c_canvas = canvas s, c_history = history s, c_historyIndex = historyIndex s\<rparr>"

section \<open>JavaScript arrays\<close>

text \<open>\<^verbatim>\<open>xs.slice(0, e)\<close>: a negative end counts from the end of the array.\<close>

definition js_slice0 :: "'a list \<Rightarrow> int \<Rightarrow> 'a list" where
  "js_slice0 xs e = (if e < 0 then take (nat (int (length xs) + e)) xs else take (nat e) xs)"

text \<open>\<^verbatim>\<open>xs[i]\<close> for an integer \<open>i\<close>: \<^verbatim>\<open>undefined\<close> (here \<open>None\<close>) out of range.\<close>

definition js_index :: "'a list \<Rightarrow> int \<Rightarrow> 'a option" where
  "js_index xs i = (if 0 \<le> i \<and> i < int (length xs) then Some (xs ! nat i) else None)"

section \<open>The graphics library\<close>

text \<open>
  The graphics library is a dependency of the repository, not part of it. This section
  and the next but one give the calls the component makes into it, as far as they touch
  the state above.

  Modelled from the spec: a constructor call (\<^verbatim>\<open>new fabric.Rect({...})\<close>) and
  \<^verbatim>\<open>fabric.util.object.clone(obj)\<close> both return a new object, the second one with the
  attributes of \<open>obj\<close>: a snapshot is a copy of the shape collection, and a re-added
  shape is an independent copy of the stored one. A shape has no attribute that is itself
  an object, so there is nothing below the attributes for a copy to share.
\<close>

definition new_object :: "shape \<Rightarrow> component \<Rightarrow> addr \<times> component" where
  "new_object v s = (length (heap s), s\<lparr>heap := heap s @ [v]\<rparr>)"

definition clone :: "addr \<Rightarrow> component \<Rightarrow> addr \<times> component" where
  "clone a s = new_object (heap s ! a) s"

text \<open>\<^verbatim>\<open>objs.map(obj => fabric.util.object.clone(obj))\<close>\<close>

fun clone_all :: "addr list \<Rightarrow> component \<Rightarrow> addr list \<times> component" where
  "clone_all [] s = ([], s)"
| "clone_all (a # as) s =
     (let (b, s1) = clone a s; (bs, s2) = clone_all as s1 in (b # bs, s2))"

definition getObjects :: "component \<Rightarrow> addr list" where
  "getObjects s = (case fabricCanvas s of None \<Rightarrow> [] | Some fc \<Rightarrow> canvas_objects fc)"

definition getActiveObject :: "component \<Rightarrow> addr option" where
  "getActiveObject s = (case fabricCanvas s of None \<Rightarrow> None | Some fc \<Rightarrow> active_object fc)"

definition setActiveObject :: "addr \<Rightarrow> component \<Rightarrow> component" where
  "setActiveObject a s = s\<lparr>fabricCanvas := map_option (\<lambda>fc. fc\<lparr>active_object := Some a\<rparr>) (fabricCanvas s)\<rparr>"

section \<open>Snapshots: saveState\<close>

text \<open>
  \<^verbatim>\<open>saveState\<close> (source lines 87 to 99). \<open>now\<close> is the value of \<^verbatim>\<open>Date.now()\<close>,
  one value for all the captures of one handler run. Nothing in the component reads a
  timestamp back.
\<close>

definition saveState :: "closure \<Rightarrow> nat \<Rightarrow> component \<Rightarrow> component" where
  "saveState env now s =
     (if c_canvas env then
        (let (copies, s1) = clone_all (getObjects s) s;
             newState = \<lparr>objects = copies, timestamp = now\<rparr>;
             newHistory = js_slice0 (c_history env) (c_historyIndex env + 1)
         in s1\<lparr>history := newHistory @ [newState], historyIndex := int (length newHistory)\<rparr>)
      else s)"

section \<open>Events of the surface\<close>

text \<open>
  The second effect of the component (source lines 144 to 189) runs after every render in
  which \<^verbatim>\<open>canvas\<close>, \<^verbatim>\<open>history\<close> or \<^verbatim>\<open>historyIndex\<close> changed. When \<^verbatim>\<open>canvas\<close> is
  not null it subscribes the handlers of that render to \<^verbatim>\<open>object:modified\<close>,
  \<^verbatim>\<open>object:added\<close> and \<^verbatim>\<open>object:removed\<close>, after the cleanup of the previous run has
  removed the older ones. So the handlers on the surface are those of the latest render,
  and there are none while \<^verbatim>\<open>canvas\<close> is null. An event carries its target object.
\<close>

datatype fabric_event =
    ObjectModified "addr option"
  | ObjectAdded "addr option"
  | ObjectRemoved "addr option"

definition handleModification :: "closure \<Rightarrow> nat \<Rightarrow> component \<Rightarrow> component" where
  "handleModification env now s = saveState env now s"

fun fire :: "closure \<Rightarrow> fabric_event \<Rightarrow> nat \<Rightarrow> component \<Rightarrow> component" where
  "fire env (ObjectModified target) now s =
     (if c_canvas env then
        (case target of None \<Rightarrow> s | Some obj \<Rightarrow> handleModification env now s)
      else s)"
| "fire env (ObjectAdded target) now s =
     (if c_canvas env then
        (case target of None \<Rightarrow> s | Some obj \<Rightarrow> handleModification env now s)
      else s)"
| "fire env (ObjectRemoved target) now s =
     (if c_canvas env then handleModification env now s else s)"

text \<open>
  Modelled from the spec: the surface emits a change notification after each structural
  mutation. \<^verbatim>\<open>canvas.add(obj)\<close> appends the object to the collection and fires
  \<^verbatim>\<open>object:added\<close>. \<^verbatim>\<open>canvas.remove(obj)\<close> does nothing for an object that is not in
  the collection; otherwise it takes the object out, drops it as the active object when
  it is the active one, and fires \<^verbatim>\<open>object:removed\<close>. Both run the subscribed handlers
  before they return, whoever the caller is.
\<close>

definition canvas_add :: "closure \<Rightarrow> addr \<Rightarrow> nat \<Rightarrow> component \<Rightarrow> component" where
  "canvas_add env a now s =
     (case fabricCanvas s of
        None \<Rightarrow> s
      | Some fc \<Rightarrow>
          fire env (ObjectAdded (Some a)) now
            (s\<lparr>fabricCanvas := Some (fc\<lparr>canvas_objects := canvas_objects fc @ [a]\<rparr>)\<rparr>))"

definition canvas_remove :: "closure \<Rightarrow> addr \<Rightarrow> nat \<Rightarrow> component \<Rightarrow> component" where
  "canvas_remove env a now s =
     (case fabricCanvas s of
        None \<Rightarrow> s
      | Some fc \<Rightarrow>
          if a \<in> set (canvas_objects fc) then
            fire env (ObjectRemoved (Some a)) now
              (s\<lparr>fabricCanvas := Some (fc\<lparr>canvas_objects := remove1 a (canvas_objects fc),
                   active_object := (if active_object fc = Some a then None else active_object fc)\<rparr>)\<rparr>)
          else s)"

section \<open>Restoring a snapshot: loadState\<close>

text \<open>
  \<^verbatim>\<open>loadState\<close> (source lines 101 to 113). Its argument is \<^verbatim>\<open>history[newIndex]\<close>,
  which is \<^verbatim>\<open>undefined\<close> out of range; reading \<^verbatim>\<open>state.objects\<close> then throws a
  TypeError, after the surface has been cleared. \<^verbatim>\<open>getObjects()\<close> returns a copy of the
  collection, so the first loop visits every object that was on the surface.
\<close>

definition clear_objects :: "closure \<Rightarrow> nat \<Rightarrow> component \<Rightarrow> component" where
  "clear_objects env now s = fold (\<lambda>obj. canvas_remove env obj now) (getObjects s) s"

definition add_clone :: "closure \<Rightarrow> nat \<Rightarrow> addr \<Rightarrow> component \<Rightarrow> component" where
  "add_clone env now obj s = (let (c, s1) = clone obj s in canvas_add env c now s1)"

definition loadState :: "closure \<Rightarrow> HistoryState option \<Rightarrow> nat \<Rightarrow> component \<Rightarrow> error + component" where
  "loadState env state now s =
     (if c_canvas env then
        (let s1 = clear_objects env now s in
         case state of
           None \<Rightarrow> Inl TypeError
         | Some st \<Rightarrow> Inr (fold (add_clone env now) (objects st) s1))
      else Inr s)"

section \<open>The six controls\<close>

definition addRectangle :: "closure \<Rightarrow> nat \<Rightarrow> component \<Rightarrow> component" where
  "addRectangle env now s =
     (if c_canvas env then
        (let (rect, s1) = new_object (Rect 100 100 100 100 ''transparent'' ''black'' 2) s
         in setActiveObject rect (canvas_add env rect now s1))
      else s)"

definition addCircle :: "closure \<Rightarrow> nat \<Rightarrow> component \<Rightarrow> component" where
  "addCircle env now s =
     (if c_canvas env then
        (let (circle, s1) = new_object (Circle 100 100 50 ''transparent'' ''black'' 2) s
         in setActiveObject circle (canvas_add env circle now s1))
      else s)"

definition deleteSelected :: "closure \<Rightarrow> nat \<Rightarrow> component \<Rightarrow> component" where
  "deleteSelected env now s =
     (if c_canvas env then
        (case getActiveObject s of
           None \<Rightarrow> s
         | Some activeObject \<Rightarrow> canvas_remove env activeObject now s)
      else s)"

definition undo :: "closure \<Rightarrow> nat \<Rightarrow> component \<Rightarrow> error + component" where
  "undo env now s =
     (if c_historyIndex env > 0 then
        (let newIndex = c_historyIndex env - 1
         in loadState env (js_index (c_history env) newIndex) now (s\<lparr>historyIndex := newIndex\<rparr>))
      else Inr s)"

definition redo :: "closure \<Rightarrow> nat \<Rightarrow> component \<Rightarrow> error + component" where
  "redo env now s =
     (if c_historyIndex env < int (length (c_history env)) - 1 then
        (let newIndex = c_historyIndex env + 1
         in loadState env (js_index (c_history env) newIndex) now (s\<lparr>historyIndex := newIndex\<rparr>))
      else Inr s)"

text \<open>
  \<^verbatim>\<open>exportCanvas\<close> (source lines 250 to 261). \<^verbatim>\<open>canvas.toDataURL\<close> draws the
  background image and the shapes and encodes the result. The image is loaded by
  \<^verbatim>\<open>fabric.Image.fromURL\<close> without a \<^verbatim>\<open>crossOrigin\<close> option, so an image of another
  origin taints what it is drawn on, and the browser refuses to encode a tainted canvas:
  \<^verbatim>\<open>toDataURL\<close> throws a SecurityError, which nothing in the handler catches.
\<close>

definition tainted :: "component \<Rightarrow> bool" where
  "tainted s =
     (imageCrossOrigin s \<and>
      (case fabricCanvas s of None \<Rightarrow> False | Some fc \<Rightarrow> background_set fc))"

definition exportCanvas :: "closure \<Rightarrow> component \<Rightarrow> error + component" where
  "exportCanvas env s =
     (if c_canvas env then
        (if tainted s then Inl SecurityError
         else Inr (s\<lparr>downloads := downloads s @ [''canvas-export.png'']\<rparr>))
      else Inr s)"

section \<open>Mounting and the image load\<close>

text \<open>
  The inputs of the component (image address, width, height) are constants of the
  application, so the first effect (source lines 115 to 142) runs once, after the first render, in which
  \<^verbatim>\<open>canvas\<close> is null, \<^verbatim>\<open>history\<close> is empty and \<^verbatim>\<open>historyIndex\<close> is \<open>-1\<close>. The
  callback it hands to \<^verbatim>\<open>fabric.Image.fromURL\<close> is created in that render, and so is the
  \<^verbatim>\<open>saveState\<close> the callback calls.
\<close>

definition mount_closure :: closure where
  "mount_closure = \<lparr>c_canvas = False, c_history = [], c_historyIndex = - 1\<rparr>"

definition mount :: "bool \<Rightarrow> bool \<Rightarrow> component" where
  "mount element crossOrigin =
     \<lparr>heap = [],
      fabricCanvas = (if element
                      then Some \<lparr>canvas_objects = [], active_object = None, background_set = False\<rparr>
                      else None),
      canvas = False, history = [], historyIndex = - 1, downloads = [],
      imageCrossOrigin = crossOrigin\<rparr>"

definition image_loaded :: "nat \<Rightarrow> component \<Rightarrow> component" where
  "image_loaded now s =
     (case fabricCanvas s of
        None \<Rightarrow> s
      | Some fc \<Rightarrow>
          saveState mount_closure now
            (s\<lparr>fabricCanvas := Some (fc\<lparr>background_set := True\<rparr>), canvas := True\<rparr>))"

section \<open>Events of the user interface\<close>

text \<open>
  What can happen to a mounted component: the image load completes, one of the six
  controls is clicked, or the user works on the surface with the pointer: selects a
  shape, clears the selection, or moves or resizes a shape, which changes its attributes
  and fires \<^verbatim>\<open>object:modified\<close>. A click runs the handler of the latest render. The
  state updates of one handler are applied together, before the next event.
\<close>

datatype event =
    ImageLoaded
  | AddRectangle
  | AddCircle
  | DeleteSelected
  | Undo
  | Redo
  | Export
  | SelectObject addr
  | Deselect
  | ModifyObject addr shape

definition select_object :: "addr \<Rightarrow> component \<Rightarrow> component" where
  "select_object a s = (if a \<in> set (getObjects s) then setActiveObject a s else s)"

definition deselect :: "component \<Rightarrow> component" where
  "deselect s = s\<lparr>fabricCanvas := map_option (\<lambda>fc. fc\<lparr>active_object := None\<rparr>) (fabricCanvas s)\<rparr>"

definition modify_object :: "closure \<Rightarrow> addr \<Rightarrow> shape \<Rightarrow> nat \<Rightarrow> component \<Rightarrow> component" where
  "modify_object env a v now s =
     (if a \<in> set (getObjects s) then
        fire env (ObjectModified (Some a)) now (setActiveObject a (s\<lparr>heap := (heap s)[a := v]\<rparr>))
      else s)"

fun step :: "nat \<Rightarrow> event \<Rightarrow> component \<Rightarrow> error + component" where
  "step now ImageLoaded s = Inr (image_loaded now s)"
| "step now AddRectangle s = Inr (addRectangle (render s) now s)"
| "step now AddCircle s = Inr (addCircle (render s) now s)"
| "step now DeleteSelected s = Inr (deleteSelected (render s) now s)"
| "step now Undo s = undo (render s) now s"
| "step now Redo s = redo (render s) now s"
| "step now Export s = exportCanvas (render s) s"
| "step now (SelectObject a) s = Inr (select_object a s)"
| "step now Deselect s = Inr (deselect s)"
| "step now (ModifyObject a v) s = Inr (modify_object (render s) a v now s)"

text \<open>
  A run of events, each with the time at which it happens; it stops at the first throw.
  The one throw a run from a mount can meet is that of \<^verbatim>\<open>toDataURL\<close>, the first
  statement of the export handler, so a component that has thrown is as it was before
  the click, and what it goes on to do is a run without that click.
\<close>

fun run :: "(nat \<times> event) list \<Rightarrow> component \<Rightarrow> error + component" where
  "run [] s = Inr s"
| "run ((now, ev) # evs) s =
     (case step now ev s of Inl e \<Rightarrow> Inl e | Inr s' \<Rightarrow> run evs s')"

text \<open>The shapes a list of references stands for, and the shapes on the surface.\<close>

definition shapes_at :: "component \<Rightarrow> addr list \<Rightarrow> shape list" where
  "shapes_at s as = map (\<lambda>a. heap s ! a) as"

definition surface_shapes :: "component \<Rightarrow> shape list" where
  "surface_shapes s = shapes_at s (getObjects s)"

section \<open>Invariants\<close>

text \<open>
  The cursor and the log fit together: the cursor is \<open>-1\<close> on an empty log and an index
  into the log otherwise.
\<close>

definition cursor_ok :: "component \<Rightarrow> bool" where
  "cursor_ok s =
     (- 1 \<le> historyIndex s \<and> historyIndex s < int (length (history s)) \<and>
      (historyIndex s = - 1) = (history s = []))"

text \<open>
  The references a log holds, and the separation of a log from the surface: every
  reference on the surface and in the log is allocated, and no object on the surface is
  an object of the log.
\<close>

definition snapshot_addrs :: "HistoryState list \<Rightarrow> addr set" where
  "snapshot_addrs h = set (concat (map objects h))"

definition isolated_from :: "HistoryState list \<Rightarrow> component \<Rightarrow> bool" where
  "isolated_from h s =
     ((\<forall>a \<in> set (getObjects s). a < length (heap s)) \<and>
      (\<forall>a \<in> snapshot_addrs h. a < length (heap s) \<and> a \<notin> set (getObjects s)))"

definition isolated :: "component \<Rightarrow> bool" where
  "isolated s = isolated_from (history s) s"

text \<open>
  While a handler runs there are two logs: the one its closure captured, which it reads,
  and the one it has written so far. The surface is kept apart from both.
\<close>

definition handler_inv :: "closure \<Rightarrow> component \<Rightarrow> bool" where
  "handler_inv env s = (isolated_from (history s) s \<and> isolated_from (c_history env) s)"

text \<open>
  Apart from the image load, nothing changes \<^verbatim>\<open>canvas\<close> or whether the surface exists,
  and nothing changes the origin of the image; \<^verbatim>\<open>canvas\<close> is only ever set to a surface
  that exists.
\<close>

definition attached :: "component \<Rightarrow> component \<Rightarrow> bool" where
  "attached s s' =
     (canvas s' = canvas s \<and> (fabricCanvas s' = None) = (fabricCanvas s = None) \<and>
      imageCrossOrigin s' = imageCrossOrigin s)"

definition published_ok :: "component \<Rightarrow> bool" where
  "published_ok s = (canvas s \<longrightarrow> fabricCanvas s \<noteq> None)"

text \<open>
  On a run from a mount the cursor stays on the last snapshot. What keeps it there: the
  log is empty until \<^verbatim>\<open>canvas\<close> is set, the last snapshot has as many objects as
  the surface, and no two neighbouring snapshots are both empty.
\<close>

definition no_empty_pair :: "HistoryState list \<Rightarrow> bool" where
  "no_empty_pair h = (\<forall>k. Suc k < length h \<longrightarrow> objects (h ! k) \<noteq> [] \<or> objects (h ! Suc k) \<noteq> [])"

definition last_size :: "HistoryState list \<Rightarrow> nat" where
  "last_size h = (case h of [] \<Rightarrow> 0 | _ \<Rightarrow> length (objects (last h)))"

definition tail_inv :: "component \<Rightarrow> bool" where
  "tail_inv s =
     (historyIndex s = int (length (history s)) - 1 \<and>
      (canvas s \<or> history s = []) \<and>
      last_size (history s) = length (getObjects s) \<and>
      no_empty_pair (history s))"

text \<open>
  What the log looks like after a capture by a handler of the closure \<open>env\<close>: the
  snapshots the closure keeps, then one snapshot of the surface, with the cursor on it.
\<close>

definition captured :: "closure \<Rightarrow> component \<Rightarrow> bool" where
  "captured env s =
     (\<exists>x. history s = js_slice0 (c_history env) (c_historyIndex env + 1) @ [x] \<and>
          length (objects x) = length (getObjects s) \<and>
          historyIndex s = int (length (js_slice0 (c_history env) (c_historyIndex env + 1))))"

section \<open>Two concrete components\<close>

text \<open>
  The component after the image load and one click on Add Rectangle: the rectangle on
  the surface is object 0, the snapshot holds its copy, object 1.
\<close>

definition loaded_with_rectangle :: component where
  "loaded_with_rectangle =
     \<lparr>heap = [Rect 100 100 100 100 ''transparent'' ''black'' 2,
              Rect 100 100 100 100 ''transparent'' ''black'' 2],
      fabricCanvas = Some \<lparr>canvas_objects = [0], active_object = Some 0, background_set = True\<rparr>,
      canvas = True,
      history = [\<lparr>objects = [1], timestamp = 2\<rparr>],
      historyIndex = 0,
      downloads = [],
      imageCrossOrigin = True\<rparr>"

text \<open>
  A component whose cursor is inside the log, as an undo is meant to leave it: four
  snapshots, the cursor on the second, and on the surface a rectangle and a circle, as in
  that snapshot. No run from a mount ends in such a component (lemma
  \<open>cursor_on_last_snapshot\<close>).
\<close>

definition undone_state :: component where
  "undone_state =
     \<lparr>heap = [Rect 100 100 100 100 ''transparent'' ''black'' 2,
              Circle 100 100 50 ''transparent'' ''black'' 2,
              Rect 100 100 100 100 ''transparent'' ''black'' 2,
              Rect 100 100 100 100 ''transparent'' ''black'' 2,
              Circle 100 100 50 ''transparent'' ''black'' 2,
              Circle 100 100 50 ''transparent'' ''black'' 2],
      fabricCanvas = Some \<lparr>canvas_objects = [0, 1], active_object = Some 1, background_set = True\<rparr>,
      canvas = True,
      history = [\<lparr>objects = [2], timestamp = 1\<rparr>, \<lparr>objects = [3, 4], timestamp = 2\<rparr>,
                 \<lparr>objects = [5], timestamp = 3\<rparr>, \<lparr>objects = [], timestamp = 4\<rparr>],
      historyIndex = 1,
      downloads = [],
      imageCrossOrigin = True\<rparr>"


section \<open>Frame lemmas\<close>

lemma new_object_fields [simp]:
  "fst (new_object v s) = length (heap s)"
  "heap (snd (new_object v s)) = heap s @ [v]"
  "fabricCanvas (snd (new_object v s)) = fabricCanvas s"
  "canvas (snd (new_object v s)) = canvas s"
  "history (snd (new_object v s)) = history s"
  "historyIndex (snd (new_object v s)) = historyIndex s"
  "downloads (snd (new_object v s)) = downloads s"
  "imageCrossOrigin (snd (new_object v s)) = imageCrossOrigin s"
  by (simp_all add: new_object_def)

lemma clone_fields [simp]:
  "fst (clone a s) = length (heap s)"
  "heap (snd (clone a s)) = heap s @ [heap s ! a]"
  "fabricCanvas (snd (clone a s)) = fabricCanvas s"
  "canvas (snd (clone a s)) = canvas s"
  "history (snd (clone a s)) = history s"
  "historyIndex (snd (clone a s)) = historyIndex s"
  "downloads (snd (clone a s)) = downloads s"
  "imageCrossOrigin (snd (clone a s)) = imageCrossOrigin s"
  by (simp_all add: clone_def)

lemma clone_all_frame [simp]:
  "fabricCanvas (snd (clone_all as s)) = fabricCanvas s"
  "canvas (snd (clone_all as s)) = canvas s"
  "history (snd (clone_all as s)) = history s"
  "historyIndex (snd (clone_all as s)) = historyIndex s"
  "downloads (snd (clone_all as s)) = downloads s"
  "imageCrossOrigin (snd (clone_all as s)) = imageCrossOrigin s"
  by (induction as arbitrary: s; simp add: split_beta Let_def)+

lemma upt_shift: "[n ..< n + Suc k] = n # [Suc n ..< Suc n + k]"
  by (subst upt_rec) simp

lemma clone_all_fst: "fst (clone_all as s) = [length (heap s) ..< length (heap s) + length as]"
proof (induction as arbitrary: s)
  case Nil
  show ?case by simp
next
  case (Cons a as)
  have "fst (clone_all (a # as) s) = length (heap s) # fst (clone_all as (snd (clone a s)))"
    by (simp add: split_beta Let_def)
  also have "\<dots> = length (heap s) # [Suc (length (heap s)) ..< Suc (length (heap s)) + length as]"
    by (simp only: Cons.IH clone_fields length_append list.size) simp
  also have "\<dots> = [length (heap s) ..< length (heap s) + Suc (length as)]"
    by (rule upt_shift [symmetric])
  finally show ?case by (simp only: list.size) simp
qed

lemma clone_all_heap_length: "length (heap (snd (clone_all as s))) = length (heap s) + length as"
  by (induction as arbitrary: s) (simp_all add: split_beta Let_def)

lemma clone_all_heap_old:
  "b < length (heap s) \<Longrightarrow> heap (snd (clone_all as s)) ! b = heap s ! b"
  by (induction as arbitrary: s) (simp_all add: split_beta Let_def nth_append)

lemma getObjects_frame [simp]:
  "getObjects (s\<lparr>history := h\<rparr>) = getObjects s"
  "getObjects (s\<lparr>historyIndex := i\<rparr>) = getObjects s"
  "getObjects (s\<lparr>heap := hp\<rparr>) = getObjects s"
  "getObjects (s\<lparr>downloads := d\<rparr>) = getObjects s"
  "getObjects (s\<lparr>canvas := c\<rparr>) = getObjects s"
  by (simp_all add: getObjects_def)

lemma saveState_history:
  "c_canvas env \<Longrightarrow>
   history (saveState env now s) =
     js_slice0 (c_history env) (c_historyIndex env + 1) @
       [\<lparr>objects = fst (clone_all (getObjects s) s), timestamp = now\<rparr>]"
  by (simp add: saveState_def split_beta Let_def)

lemma saveState_historyIndex:
  "c_canvas env \<Longrightarrow>
   historyIndex (saveState env now s) = int (length (js_slice0 (c_history env) (c_historyIndex env + 1)))"
  by (simp add: saveState_def split_beta Let_def)

lemma saveState_off [simp]: "\<not> c_canvas env \<Longrightarrow> saveState env now s = s"
  by (simp add: saveState_def)

lemma saveState_frame [simp]:
  "fabricCanvas (saveState env now s) = fabricCanvas s"
  "canvas (saveState env now s) = canvas s"
  "downloads (saveState env now s) = downloads s"
  "imageCrossOrigin (saveState env now s) = imageCrossOrigin s"
  by (simp_all add: saveState_def split_beta Let_def)

lemma render_simps [simp]:
  "c_canvas (render s) = canvas s"
  "c_history (render s) = history s"
  "c_historyIndex (render s) = historyIndex s"
  by (simp_all add: render_def)

section \<open>The cursor invariant\<close>

lemma cursor_ok_saveState: "cursor_ok s \<Longrightarrow> cursor_ok (saveState env now s)"
  by (cases "c_canvas env") (simp_all add: cursor_ok_def saveState_history saveState_historyIndex)

lemma cursor_ok_fire: "cursor_ok s \<Longrightarrow> cursor_ok (fire env ev now s)"
  by (cases ev) (simp_all add: handleModification_def cursor_ok_saveState split: option.splits)

lemma cursor_ok_fabricCanvas [simp]: "cursor_ok (s\<lparr>fabricCanvas := fc\<rparr>) = cursor_ok s"
  by (simp add: cursor_ok_def)

lemma cursor_ok_canvas [simp]: "cursor_ok (s\<lparr>canvas := c\<rparr>) = cursor_ok s"
  by (simp add: cursor_ok_def)

lemma cursor_ok_heap [simp]: "cursor_ok (s\<lparr>heap := hp\<rparr>) = cursor_ok s"
  by (simp add: cursor_ok_def)

lemma cursor_ok_canvas_add: "cursor_ok s \<Longrightarrow> cursor_ok (canvas_add env a now s)"
  by (simp add: canvas_add_def cursor_ok_fire split: option.splits del: fire.simps)

lemma cursor_ok_canvas_remove: "cursor_ok s \<Longrightarrow> cursor_ok (canvas_remove env a now s)"
  by (simp add: canvas_remove_def cursor_ok_fire split: option.splits del: fire.simps)

lemma cursor_ok_clone: "cursor_ok (snd (clone a s)) = cursor_ok s"
  by (simp add: cursor_ok_def)

lemma cursor_ok_new_object: "cursor_ok (snd (new_object v s)) = cursor_ok s"
  by (simp add: cursor_ok_def)

lemma cursor_ok_fold_remove:
  "cursor_ok s \<Longrightarrow> cursor_ok (fold (\<lambda>obj. canvas_remove env obj now) as s)"
  by (induction as arbitrary: s) (simp_all add: cursor_ok_canvas_remove)

lemma cursor_ok_add_clone: "cursor_ok s \<Longrightarrow> cursor_ok (add_clone env now a s)"
  by (simp add: add_clone_def split_beta cursor_ok_canvas_add cursor_ok_clone)

lemma cursor_ok_fold_add:
  "cursor_ok s \<Longrightarrow> cursor_ok (fold (add_clone env now) as s)"
  by (induction as arbitrary: s) (simp_all add: cursor_ok_add_clone)

lemma cursor_ok_loadState:
  "cursor_ok s \<Longrightarrow> \<exists>s'. loadState env (Some st) now s = Inr s' \<and> cursor_ok s'"
  by (simp add: loadState_def clear_objects_def cursor_ok_fold_add cursor_ok_fold_remove)

lemma cursor_ok_setActiveObject [simp]: "cursor_ok (setActiveObject a s) = cursor_ok s"
  by (simp add: setActiveObject_def)

lemma cursor_ok_step:
  assumes "cursor_ok s"
  shows "(\<exists>s'. step now ev s = Inr s' \<and> cursor_ok s') \<or>
         (ev = Export \<and> canvas s \<and> tainted s \<and> step now ev s = Inl SecurityError)"
proof (cases ev)
  case ImageLoaded
  then show ?thesis using assms
    by (simp add: image_loaded_def mount_closure_def split: option.splits)
next
  case AddRectangle
  then show ?thesis using assms
    by (simp add: addRectangle_def split_beta cursor_ok_canvas_add cursor_ok_new_object)
next
  case AddCircle
  then show ?thesis using assms
    by (simp add: addCircle_def split_beta cursor_ok_canvas_add cursor_ok_new_object)
next
  case DeleteSelected
  then show ?thesis using assms
    by (simp add: deleteSelected_def cursor_ok_canvas_remove split: option.splits)
next
  case Undo
  show ?thesis
  proof (cases "0 < historyIndex s")
    case True
    have idx: "js_index (history s) (historyIndex s - 1) = Some (history s ! nat (historyIndex s - 1))"
      using assms True by (simp add: js_index_def cursor_ok_def)
    have "cursor_ok (s\<lparr>historyIndex := historyIndex s - 1\<rparr>)"
      using assms True by (auto simp add: cursor_ok_def)
    from cursor_ok_loadState [OF this] show ?thesis
      using Undo True idx by (simp add: undo_def Let_def)
  next
    case False
    then show ?thesis using Undo assms by (simp add: undo_def)
  qed
next
  case Redo
  show ?thesis
  proof (cases "historyIndex s < int (length (history s)) - 1")
    case True
    have idx: "js_index (history s) (historyIndex s + 1) = Some (history s ! nat (historyIndex s + 1))"
      using assms True by (simp add: js_index_def cursor_ok_def)
    have "cursor_ok (s\<lparr>historyIndex := historyIndex s + 1\<rparr>)"
      using assms True by (auto simp add: cursor_ok_def)
    from cursor_ok_loadState [OF this] show ?thesis
      using Redo True idx by (simp add: redo_def Let_def)
  next
    case False
    then show ?thesis using Redo assms by (simp add: redo_def)
  qed
next
  case Export
  then show ?thesis using assms by (auto simp add: exportCanvas_def cursor_ok_def)
next
  case (SelectObject a)
  then show ?thesis using assms by (simp add: select_object_def)
next
  case Deselect
  then show ?thesis using assms by (simp add: deselect_def)
next
  case (ModifyObject a v)
  then show ?thesis using assms by (simp add: modify_object_def cursor_ok_fire del: fire.simps)
qed

lemma cursor_ok_step_Inr: "cursor_ok s \<Longrightarrow> step now ev s = Inr s' \<Longrightarrow> cursor_ok s'"
  using cursor_ok_step [of s now ev] by auto

lemma cursor_ok_run:
  "cursor_ok s \<Longrightarrow> (\<exists>s'. run evs s = Inr s' \<and> cursor_ok s') \<or> run evs s = Inl SecurityError"
proof (induction evs arbitrary: s)
  case Nil
  then show ?case by simp
next
  case (Cons e evs)
  obtain now ev where e: "e = (now, ev)" by (cases e)
  from cursor_ok_step [OF Cons.prems, of now ev] consider
    s1 where "step now ev s = Inr s1" "cursor_ok s1"
    | "step now ev s = Inl SecurityError" by blast
  then show ?case
  proof cases
    case 1
    from Cons.IH [OF 1(2)] show ?thesis using e 1(1) by simp
  next
    case 2
    then show ?thesis using e by simp
  qed
qed

lemma cursor_ok_run_Inr: "cursor_ok s \<Longrightarrow> run evs s = Inr s' \<Longrightarrow> cursor_ok s'"
  using cursor_ok_run [of s evs] by auto

lemma run_without_export:
  "cursor_ok s \<Longrightarrow> Export \<notin> snd ` set evs \<Longrightarrow> \<exists>s'. run evs s = Inr s' \<and> cursor_ok s'"
proof (induction evs arbitrary: s)
  case Nil
  then show ?case by simp
next
  case (Cons e evs)
  obtain now ev where e: "e = (now, ev)" by (cases e)
  have "ev \<noteq> Export" using Cons.prems(2) e by auto
  with cursor_ok_step [OF Cons.prems(1), of now ev] obtain s1 where
    s1: "step now ev s = Inr s1" "cursor_ok s1" by blast
  have "Export \<notin> snd ` set evs" using Cons.prems(2) by auto
  from Cons.IH [OF s1(2) this] show ?case using e s1(1) by simp
qed

lemma cursor_ok_mount: "cursor_ok (mount element xo)"
  by (simp add: cursor_ok_def mount_def)

section \<open>The store only grows\<close>

lemma clone_all_heap_grows: "\<exists>ext. heap (snd (clone_all as s)) = heap s @ ext"
proof (induction as arbitrary: s)
  case Nil
  show ?case by simp
next
  case (Cons a as)
  from Cons.IH [of "snd (clone a s)"] obtain ext where
    "heap (snd (clone_all as (snd (clone a s)))) = heap (snd (clone a s)) @ ext" by blast
  then show ?case by (simp add: split_beta Let_def)
qed

lemma saveState_heap_grows: "\<exists>ext. heap (saveState env now s) = heap s @ ext"
proof (cases "c_canvas env")
  case True
  from clone_all_heap_grows [of "getObjects s" s] show ?thesis
    using True by (simp add: saveState_def split_beta Let_def)
next
  case False
  then show ?thesis by simp
qed

lemma fire_heap_grows: "\<exists>ext. heap (fire env ev now s) = heap s @ ext"
  by (cases ev) (simp_all add: handleModification_def saveState_heap_grows split: option.splits)

lemma canvas_add_heap_grows: "\<exists>ext. heap (canvas_add env a now s) = heap s @ ext"
proof (cases "fabricCanvas s")
  case None
  then show ?thesis by (simp add: canvas_add_def)
next
  case (Some fc)
  from fire_heap_grows
    [of env "ObjectAdded (Some a)" now "s\<lparr>fabricCanvas := Some (fc\<lparr>canvas_objects := canvas_objects fc @ [a]\<rparr>)\<rparr>"]
  show ?thesis using Some by (simp add: canvas_add_def del: fire.simps)
qed

lemma canvas_remove_heap_grows: "\<exists>ext. heap (canvas_remove env a now s) = heap s @ ext"
proof (cases "fabricCanvas s")
  case None
  then show ?thesis by (simp add: canvas_remove_def)
next
  case (Some fc)
  show ?thesis
  proof (cases "a \<in> set (canvas_objects fc)")
    case True
    from fire_heap_grows
      [of env "ObjectRemoved (Some a)" now
          "s\<lparr>fabricCanvas := Some (fc\<lparr>canvas_objects := remove1 a (canvas_objects fc),
               active_object := (if active_object fc = Some a then None else active_object fc)\<rparr>)\<rparr>"]
    show ?thesis using Some True by (simp add: canvas_remove_def del: fire.simps)
  next
    case False
    then show ?thesis using Some by (simp add: canvas_remove_def)
  qed
qed

lemma fold_heap_grows:
  assumes "\<And>a s. \<exists>ext. heap (f a s) = heap s @ ext"
  shows "\<exists>ext. heap (fold f as s) = heap s @ ext"
proof (induction as arbitrary: s)
  case Nil
  show ?case by simp
next
  case (Cons a as)
  from assms [of a s] obtain e1 where e1: "heap (f a s) = heap s @ e1" by blast
  from Cons.IH [of "f a s"] obtain e2 where "heap (fold f as (f a s)) = heap (f a s) @ e2" by blast
  with e1 show ?case by simp
qed

lemma add_clone_heap_grows: "\<exists>ext. heap (add_clone env now a s) = heap s @ ext"
proof -
  from canvas_add_heap_grows [of env "fst (clone a s)" now "snd (clone a s)"]
  show ?thesis by (auto simp add: add_clone_def split_beta)
qed

lemma clear_objects_heap_grows: "\<exists>ext. heap (clear_objects env now s) = heap s @ ext"
  unfolding clear_objects_def by (rule fold_heap_grows) (rule canvas_remove_heap_grows)

lemma loadState_heap_grows:
  assumes "loadState env state now s = Inr s'"
  shows "\<exists>ext. heap s' = heap s @ ext"
proof (cases "c_canvas env")
  case False
  with assms show ?thesis by (simp add: loadState_def)
next
  case True
  with assms obtain st where st: "state = Some st"
    and s': "s' = fold (add_clone env now) (objects st) (clear_objects env now s)"
    by (auto simp add: loadState_def Let_def split: option.splits)
  from clear_objects_heap_grows [of env now s] obtain e1 where
    e1: "heap (clear_objects env now s) = heap s @ e1" by blast
  have "\<exists>ext. heap (fold (add_clone env now) (objects st) (clear_objects env now s)) =
          heap (clear_objects env now s) @ ext"
    by (rule fold_heap_grows) (rule add_clone_heap_grows)
  with e1 s' show ?thesis by auto
qed

lemma setActiveObject_fields [simp]:
  "heap (setActiveObject a s) = heap s"
  "history (setActiveObject a s) = history s"
  "historyIndex (setActiveObject a s) = historyIndex s"
  "canvas (setActiveObject a s) = canvas s"
  "getObjects (setActiveObject a s) = getObjects s"
  by (simp_all add: setActiveObject_def getObjects_def split: option.splits)

lemma step_heap:
  assumes "step now ev s = Inr s'"
  shows "(\<exists>ext. heap s' = heap s @ ext) \<or>
         (\<exists>a v ext. a \<in> set (getObjects s) \<and> heap s' = (heap s)[a := v] @ ext)"
proof (cases ev)
  case ImageLoaded
  then show ?thesis using assms
    by (auto simp add: image_loaded_def mount_closure_def split: option.splits)
next
  case AddRectangle
  show ?thesis
  proof (cases "canvas s")
    case True
    from canvas_add_heap_grows
      [of "render s" "length (heap s)" now "snd (new_object (Rect 100 100 100 100 ''transparent'' ''black'' 2) s)"]
    show ?thesis using assms AddRectangle True
      by (auto simp add: addRectangle_def split_beta)
  next
    case False
    then show ?thesis using assms AddRectangle by (auto simp add: addRectangle_def)
  qed
next
  case AddCircle
  show ?thesis
  proof (cases "canvas s")
    case True
    from canvas_add_heap_grows
      [of "render s" "length (heap s)" now "snd (new_object (Circle 100 100 50 ''transparent'' ''black'' 2) s)"]
    show ?thesis using assms AddCircle True
      by (auto simp add: addCircle_def split_beta)
  next
    case False
    then show ?thesis using assms AddCircle by (auto simp add: addCircle_def)
  qed
next
  case DeleteSelected
  then show ?thesis using assms canvas_remove_heap_grows [of "render s" _ now s]
    by (auto simp add: deleteSelected_def split: option.splits)
next
  case Undo
  then show ?thesis using assms
    by (auto simp add: undo_def Let_def split: if_splits dest!: loadState_heap_grows)
next
  case Redo
  then show ?thesis using assms
    by (auto simp add: redo_def Let_def split: if_splits dest!: loadState_heap_grows)
next
  case Export
  then show ?thesis using assms by (auto simp add: exportCanvas_def split: if_splits)
next
  case (SelectObject a)
  then show ?thesis using assms by (auto simp add: select_object_def)
next
  case Deselect
  then show ?thesis using assms by (auto simp add: deselect_def)
next
  case (ModifyObject a v)
  show ?thesis
  proof (cases "a \<in> set (getObjects s)")
    case True
    from fire_heap_grows
      [of "render s" "ObjectModified (Some a)" now "setActiveObject a (s\<lparr>heap := (heap s)[a := v]\<rparr>)"]
    obtain ext where "heap s' = (heap s)[a := v] @ ext"
      using assms ModifyObject True by (auto simp add: modify_object_def simp del: fire.simps)
    with True show ?thesis by blast
  next
    case False
    then show ?thesis using assms ModifyObject by (auto simp add: modify_object_def)
  qed
qed

section \<open>Snapshots and surface stay apart\<close>

lemma snapshot_addrs_append [simp]:
  "snapshot_addrs (h1 @ h2) = snapshot_addrs h1 \<union> snapshot_addrs h2"
  by (simp add: snapshot_addrs_def)

lemma snapshot_addrs_single [simp]: "snapshot_addrs [st] = set (objects st)"
  by (simp add: snapshot_addrs_def)

lemma snapshot_addrs_Nil [simp]: "snapshot_addrs [] = {}"
  by (simp add: snapshot_addrs_def)

lemma snapshot_addrs_mem: "st \<in> set h \<Longrightarrow> set (objects st) \<subseteq> snapshot_addrs h"
  by (auto simp add: snapshot_addrs_def)

lemma snapshot_addrs_take: "snapshot_addrs (take n h) \<subseteq> snapshot_addrs h"
  by (auto simp add: snapshot_addrs_def dest: in_set_takeD)

lemma snapshot_addrs_slice: "snapshot_addrs (js_slice0 h e) \<subseteq> snapshot_addrs h"
  by (simp add: js_slice0_def snapshot_addrs_take)

lemma getObjects_clone_all [simp]: "getObjects (snd (clone_all as s)) = getObjects s"
  by (simp add: getObjects_def)

lemma getObjects_clone [simp]: "getObjects (snd (clone a s)) = getObjects s"
  by (simp add: getObjects_def)

lemma getObjects_new_object [simp]: "getObjects (snd (new_object v s)) = getObjects s"
  by (simp add: getObjects_def)

lemma getObjects_saveState [simp]: "getObjects (saveState env now s) = getObjects s"
  by (simp add: getObjects_def)

lemma saveState_heap_length:
  "c_canvas env \<Longrightarrow> length (heap (saveState env now s)) = length (heap s) + length (getObjects s)"
  by (simp add: saveState_def split_beta Let_def clone_all_heap_length)

lemma saveState_snapshot_addrs:
  "c_canvas env \<Longrightarrow>
   snapshot_addrs (history (saveState env now s)) \<subseteq>
     snapshot_addrs (c_history env) \<union> {length (heap s) ..< length (heap s) + length (getObjects s)}"
  using snapshot_addrs_slice [of "c_history env" "c_historyIndex env + 1"]
  by (auto simp add: saveState_history clone_all_fst)

lemma handler_inv_saveState:
  assumes "handler_inv env s"
  shows "handler_inv env (saveState env now s)"
proof (cases "c_canvas env")
  case False
  with assms show ?thesis by simp
next
  case True
  let ?s' = "saveState env now s"
  have len: "length (heap ?s') = length (heap s) + length (getObjects s)"
    using True by (rule saveState_heap_length)
  have live: "\<forall>a \<in> set (getObjects s). a < length (heap s)"
    using assms by (simp add: handler_inv_def isolated_from_def)
  have old: "\<forall>a \<in> snapshot_addrs (c_history env). a < length (heap s) \<and> a \<notin> set (getObjects s)"
    using assms by (simp add: handler_inv_def isolated_from_def)
  have new: "\<forall>a \<in> snapshot_addrs (history ?s'). a < length (heap ?s') \<and> a \<notin> set (getObjects s)"
  proof
    fix a assume "a \<in> snapshot_addrs (history ?s')"
    with saveState_snapshot_addrs [OF True, of now s]
    have "a \<in> snapshot_addrs (c_history env) \<or>
          (length (heap s) \<le> a \<and> a < length (heap s) + length (getObjects s))" by auto
    then show "a < length (heap ?s') \<and> a \<notin> set (getObjects s)"
      using old live len by auto
  qed
  show ?thesis
    unfolding handler_inv_def isolated_from_def
    using live old new len by auto
qed

lemma handler_inv_fire: "handler_inv env s \<Longrightarrow> handler_inv env (fire env ev now s)"
  by (cases ev) (simp_all add: handleModification_def handler_inv_saveState split: option.splits)

lemma handler_inv_canvas_add:
  assumes "handler_inv env s" "a < length (heap s)"
    and "a \<notin> snapshot_addrs (history s)" "a \<notin> snapshot_addrs (c_history env)"
  shows "handler_inv env (canvas_add env a now s)"
proof (cases "fabricCanvas s")
  case None
  with assms(1) show ?thesis by (simp add: canvas_add_def)
next
  case (Some fc)
  have "handler_inv env (s\<lparr>fabricCanvas := Some (fc\<lparr>canvas_objects := canvas_objects fc @ [a]\<rparr>)\<rparr>)"
    using assms Some by (auto simp add: handler_inv_def isolated_from_def getObjects_def)
  from handler_inv_fire [OF this] show ?thesis
    using Some by (simp add: canvas_add_def del: fire.simps)
qed

lemma handler_inv_canvas_remove:
  assumes "handler_inv env s"
  shows "handler_inv env (canvas_remove env a now s)"
proof (cases "fabricCanvas s")
  case None
  with assms show ?thesis by (simp add: canvas_remove_def)
next
  case (Some fc)
  have "handler_inv env (s\<lparr>fabricCanvas := Some (fc\<lparr>canvas_objects := remove1 a (canvas_objects fc),
          active_object := ao\<rparr>)\<rparr>)" for ao
    using assms Some
    by (auto simp add: handler_inv_def isolated_from_def getObjects_def dest: notin_set_remove1)
  from handler_inv_fire [OF this] show ?thesis
    using Some assms by (simp add: canvas_remove_def del: fire.simps)
qed

lemma handler_inv_clear_objects:
  "handler_inv env s \<Longrightarrow> handler_inv env (clear_objects env now s)"
proof -
  have "handler_inv env s \<Longrightarrow> handler_inv env (fold (\<lambda>obj. canvas_remove env obj now) as s)" for as
    by (induction as arbitrary: s) (simp_all add: handler_inv_canvas_remove)
  then show "handler_inv env s \<Longrightarrow> handler_inv env (clear_objects env now s)"
    by (simp add: clear_objects_def)
qed

lemma handler_inv_fresh:
  assumes "handler_inv env s"
  shows "handler_inv env (s\<lparr>heap := heap s @ [v]\<rparr>)"
    and "length (heap s) \<notin> snapshot_addrs (history s)"
    and "length (heap s) \<notin> snapshot_addrs (c_history env)"
  using assms by (auto simp add: handler_inv_def isolated_from_def intro: less_SucI)

lemma handler_inv_add_clone:
  assumes "handler_inv env s"
  shows "handler_inv env (add_clone env now a s)"
proof -
  have s1: "snd (clone a s) = s\<lparr>heap := heap s @ [heap s ! a]\<rparr>"
    by (simp add: clone_def new_object_def)
  have "handler_inv env (canvas_add env (length (heap s)) now (s\<lparr>heap := heap s @ [heap s ! a]\<rparr>))"
    using handler_inv_fresh [OF assms] by (intro handler_inv_canvas_add) simp_all
  then show ?thesis by (simp add: add_clone_def split_beta s1)
qed

lemma handler_inv_fold_add_clone:
  "handler_inv env s \<Longrightarrow> handler_inv env (fold (add_clone env now) as s)"
  by (induction as arbitrary: s) (simp_all add: handler_inv_add_clone)

lemma handler_inv_loadState:
  assumes "handler_inv env s" "loadState env state now s = Inr s'"
  shows "handler_inv env s'"
  using assms
  by (auto simp add: loadState_def Let_def handler_inv_fold_add_clone handler_inv_clear_objects
      split: if_splits option.splits)

lemma handler_inv_render: "handler_inv (render s) s = isolated s"
  by (simp add: handler_inv_def isolated_def)

lemma handler_inv_isolated: "handler_inv env s \<Longrightarrow> isolated s"
  by (simp add: handler_inv_def isolated_def)

lemma handler_inv_historyIndex [simp]:
  "handler_inv env (s\<lparr>historyIndex := i\<rparr>) = handler_inv env s"
  by (simp add: handler_inv_def isolated_from_def)

lemma handler_inv_setActiveObject [simp]:
  "handler_inv env (setActiveObject a s) = handler_inv env s"
  by (simp add: handler_inv_def isolated_from_def)

lemma isolated_setActiveObject [simp]: "isolated (setActiveObject a s) = isolated s"
  by (simp add: isolated_def isolated_from_def)

lemma handler_inv_new_object:
  assumes "handler_inv env s"
  shows "handler_inv env (canvas_add env (length (heap s)) now (snd (new_object v s)))"
proof -
  have s1: "snd (new_object v s) = s\<lparr>heap := heap s @ [v]\<rparr>"
    by (simp add: new_object_def)
  show ?thesis unfolding s1
    using handler_inv_fresh [OF assms] by (intro handler_inv_canvas_add) simp_all
qed

lemma deselect_fields [simp]:
  "heap (deselect s) = heap s"
  "history (deselect s) = history s"
  "historyIndex (deselect s) = historyIndex s"
  "canvas (deselect s) = canvas s"
  "getObjects (deselect s) = getObjects s"
  by (simp_all add: deselect_def getObjects_def split: option.splits)

lemma isolated_step:
  assumes "isolated s" "step now ev s = Inr s'"
  shows "isolated s'"
proof -
  have inv: "handler_inv (render s) s" using assms(1) by (simp add: handler_inv_render)
  show ?thesis
  proof (cases ev)
    case ImageLoaded
    then show ?thesis using assms
      by (auto simp add: image_loaded_def mount_closure_def isolated_def isolated_from_def
          getObjects_def split: option.splits)
  next
    case AddRectangle
    show ?thesis
    proof (cases "canvas s")
      case True
      have "isolated (canvas_add (render s) (length (heap s)) now
              (snd (new_object (Rect 100 100 100 100 ''transparent'' ''black'' 2) s)))"
        by (rule handler_inv_isolated [OF handler_inv_new_object [OF inv]])
      then show ?thesis using assms(2) AddRectangle True
        by (auto simp add: addRectangle_def split_beta)
    next
      case False
      then show ?thesis using assms AddRectangle by (auto simp add: addRectangle_def)
    qed
  next
    case AddCircle
    show ?thesis
    proof (cases "canvas s")
      case True
      have "isolated (canvas_add (render s) (length (heap s)) now
              (snd (new_object (Circle 100 100 50 ''transparent'' ''black'' 2) s)))"
        by (rule handler_inv_isolated [OF handler_inv_new_object [OF inv]])
      then show ?thesis using assms(2) AddCircle True
        by (auto simp add: addCircle_def split_beta)
    next
      case False
      then show ?thesis using assms AddCircle by (auto simp add: addCircle_def)
    qed
  next
    case DeleteSelected
    have "isolated (canvas_remove (render s) a now s)" for a
      by (rule handler_inv_isolated [OF handler_inv_canvas_remove [OF inv]])
    then show ?thesis using assms DeleteSelected
      by (auto simp add: deleteSelected_def split: if_splits option.splits)
  next
    case Undo
    then show ?thesis using assms inv
      by (auto simp add: undo_def Let_def split: if_splits
          dest!: handler_inv_loadState [rotated] dest: handler_inv_isolated)
  next
    case Redo
    then show ?thesis using assms inv
      by (auto simp add: redo_def Let_def split: if_splits
          dest!: handler_inv_loadState [rotated] dest: handler_inv_isolated)
  next
    case Export
    then show ?thesis using assms
      by (auto simp add: exportCanvas_def isolated_def isolated_from_def split: if_splits)
  next
    case (SelectObject a)
    then show ?thesis using assms inv
      by (auto simp add: select_object_def dest: handler_inv_isolated split: if_splits)
  next
    case Deselect
    then show ?thesis using assms
      by (auto simp add: isolated_def isolated_from_def)
  next
    case (ModifyObject a v)
    have "handler_inv (render s) (setActiveObject a (s\<lparr>heap := (heap s)[a := v]\<rparr>))"
      using inv by (simp add: handler_inv_def isolated_from_def)
    from handler_inv_fire [OF this, of "ObjectModified (Some a)" now]
    show ?thesis using ModifyObject assms
      by (auto simp add: modify_object_def dest: handler_inv_isolated split: if_splits simp del: fire.simps)
  qed
qed

lemma isolated_run:
  "isolated s \<Longrightarrow> run evs s = Inr s' \<Longrightarrow> isolated s'"
proof (induction evs arbitrary: s)
  case Nil
  then show ?case by simp
next
  case (Cons e evs)
  obtain now ev where e: "e = (now, ev)" by (cases e)
  from Cons.prems(2) e obtain s1 where s1: "step now ev s = Inr s1" "run evs s1 = Inr s'"
    by (auto split: sum.splits)
  from Cons.IH [OF isolated_step [OF Cons.prems(1) s1(1)] s1(2)] show ?case .
qed

lemma isolated_mount: "isolated (mount element xo)"
  by (simp add: isolated_def isolated_from_def mount_def getObjects_def)

section \<open>The surface handle stays in place\<close>

lemma attached_refl [simp]: "attached s s"
  by (simp add: attached_def)

lemma attached_trans: "attached s s1 \<Longrightarrow> attached s1 s2 \<Longrightarrow> attached s s2"
  by (simp add: attached_def)

lemma attached_fire: "attached s (fire env ev now s)"
  by (cases ev) (simp_all add: attached_def handleModification_def split: option.splits)

lemma attached_canvas_add: "attached s (canvas_add env a now s)"
proof (cases "fabricCanvas s")
  case None
  then show ?thesis by (simp add: canvas_add_def)
next
  case (Some fc)
  from attached_fire
    [of "s\<lparr>fabricCanvas := Some (fc\<lparr>canvas_objects := canvas_objects fc @ [a]\<rparr>)\<rparr>" env "ObjectAdded (Some a)" now]
  show ?thesis using Some by (simp add: canvas_add_def attached_def del: fire.simps)
qed

lemma attached_canvas_remove: "attached s (canvas_remove env a now s)"
proof (cases "fabricCanvas s")
  case None
  then show ?thesis by (simp add: canvas_remove_def)
next
  case (Some fc)
  show ?thesis
  proof (cases "a \<in> set (canvas_objects fc)")
    case True
    from attached_fire
      [of "s\<lparr>fabricCanvas := Some (fc\<lparr>canvas_objects := remove1 a (canvas_objects fc),
               active_object := (if active_object fc = Some a then None else active_object fc)\<rparr>)\<rparr>"
          env "ObjectRemoved (Some a)" now]
    show ?thesis using Some True by (simp add: canvas_remove_def attached_def del: fire.simps)
  next
    case False
    then show ?thesis using Some by (simp add: canvas_remove_def)
  qed
qed

lemma attached_fold:
  assumes "\<And>a s. attached s (f a s)"
  shows "attached s (fold f as s)"
proof (induction as arbitrary: s)
  case Nil
  show ?case by simp
next
  case (Cons a as)
  from attached_trans [OF assms [of s a] Cons.IH [of "f a s"]] show ?case by simp
qed

lemma attached_add_clone: "attached s (add_clone env now a s)"
  using attached_canvas_add [of "snd (clone a s)" env "fst (clone a s)" now]
  by (simp add: add_clone_def split_beta attached_def)

lemma attached_clear_objects: "attached s (clear_objects env now s)"
  unfolding clear_objects_def by (rule attached_fold) (rule attached_canvas_remove)

lemma attached_loadState:
  assumes "loadState env state now s = Inr s'"
  shows "attached s s'"
proof (cases "c_canvas env")
  case False
  with assms show ?thesis by (simp add: loadState_def)
next
  case True
  show ?thesis
  proof (cases state)
    case None
    with assms True show ?thesis by (simp add: loadState_def)
  next
    case (Some st)
    with assms True have
      s': "s' = fold (add_clone env now) (objects st) (clear_objects env now s)"
      by (simp add: loadState_def Let_def)
    have "attached (clear_objects env now s) s'"
      unfolding s' by (rule attached_fold) (rule attached_add_clone)
    with attached_clear_objects show ?thesis by (rule attached_trans)
  qed
qed

lemma published_ok_attached: "attached s s' \<Longrightarrow> published_ok s \<Longrightarrow> published_ok s'"
  by (simp add: attached_def published_ok_def)

lemma attached_step:
  assumes "step now ev s = Inr s'" "ev \<noteq> ImageLoaded"
  shows "attached s s'"
proof (cases ev)
  case ImageLoaded
  with assms show ?thesis by simp
next
  case AddRectangle
  then show ?thesis
    using assms attached_canvas_add [of "snd (new_object (Rect 100 100 100 100 ''transparent'' ''black'' 2) s)"
        "render s" "length (heap s)" now]
    by (auto simp add: addRectangle_def split_beta attached_def setActiveObject_def split: if_splits)
next
  case AddCircle
  then show ?thesis
    using assms attached_canvas_add [of "snd (new_object (Circle 100 100 50 ''transparent'' ''black'' 2) s)"
        "render s" "length (heap s)" now]
    by (auto simp add: addCircle_def split_beta attached_def setActiveObject_def split: if_splits)
next
  case DeleteSelected
  then show ?thesis using assms attached_canvas_remove [of s "render s" _ now]
    by (auto simp add: deleteSelected_def split: if_splits option.splits)
next
  case Undo
  then show ?thesis using assms
    by (auto simp add: undo_def Let_def attached_def split: if_splits dest!: attached_loadState)
next
  case Redo
  then show ?thesis using assms
    by (auto simp add: redo_def Let_def attached_def split: if_splits dest!: attached_loadState)
next
  case Export
  then show ?thesis using assms by (auto simp add: exportCanvas_def attached_def split: if_splits)
next
  case (SelectObject a)
  then show ?thesis using assms
    by (auto simp add: select_object_def attached_def setActiveObject_def split: if_splits)
next
  case Deselect
  then show ?thesis using assms by (auto simp add: deselect_def attached_def)
next
  case (ModifyObject a v)
  then show ?thesis
    using assms attached_fire [of "setActiveObject a (s\<lparr>heap := (heap s)[a := v]\<rparr>)" "render s"
        "ObjectModified (Some a)" now]
    by (auto simp add: modify_object_def attached_def setActiveObject_def split: if_splits simp del: fire.simps)
qed

lemma published_ok_step:
  assumes "published_ok s" "step now ev s = Inr s'"
  shows "published_ok s'"
proof (cases "ev = ImageLoaded")
  case True
  with assms show ?thesis
    by (auto simp add: image_loaded_def mount_closure_def published_ok_def split: option.splits)
next
  case False
  from published_ok_attached [OF attached_step [OF assms(2) False] assms(1)] show ?thesis .
qed

lemma published_ok_run:
  "published_ok s \<Longrightarrow> run evs s = Inr s' \<Longrightarrow> published_ok s'"
proof (induction evs arbitrary: s)
  case Nil
  then show ?case by simp
next
  case (Cons e evs)
  obtain now ev where e: "e = (now, ev)" by (cases e)
  from Cons.prems(2) e obtain s1 where s1: "step now ev s = Inr s1" "run evs s1 = Inr s'"
    by (auto split: sum.splits)
  from Cons.IH [OF published_ok_step [OF Cons.prems(1) s1(1)] s1(2)] show ?case .
qed

lemma published_ok_mount: "published_ok (mount element xo)"
  by (simp add: published_ok_def mount_def)

section \<open>What loadState puts on the surface\<close>

lemma getObjects_fire [simp]: "getObjects (fire env ev now s) = getObjects s"
  by (cases ev) (simp_all add: handleModification_def split: option.splits)

lemma getObjects_canvas_remove:
  "getObjects (canvas_remove env a now s) = remove1 a (getObjects s)"
proof (cases "fabricCanvas s")
  case None
  then show ?thesis by (simp add: canvas_remove_def getObjects_def)
next
  case (Some fc)
  show ?thesis
  proof (cases "a \<in> set (canvas_objects fc)")
    case True
    with Some show ?thesis
      by (simp add: canvas_remove_def del: fire.simps) (simp add: getObjects_def)
  next
    case False
    with Some show ?thesis
      by (simp add: canvas_remove_def getObjects_def remove1_idem)
  qed
qed

lemma fold_remove1_self: "fold remove1 xs (xs @ zs) = zs"
  by (induction xs) simp_all

lemma getObjects_fold_remove:
  "getObjects (fold (\<lambda>obj. canvas_remove env obj now) as s) = fold remove1 as (getObjects s)"
  by (induction as arbitrary: s) (simp_all add: getObjects_canvas_remove)

lemma getObjects_clear_objects: "getObjects (clear_objects env now s) = []"
  using fold_remove1_self [of "getObjects s" "[]"]
  by (simp add: clear_objects_def getObjects_fold_remove)

lemma getObjects_canvas_add:
  "fabricCanvas s \<noteq> None \<Longrightarrow> getObjects (canvas_add env a now s) = getObjects s @ [a]"
  by (cases "fabricCanvas s")
    (simp_all add: canvas_add_def del: fire.simps, simp add: getObjects_def)

lemma getObjects_add_clone:
  "fabricCanvas s \<noteq> None \<Longrightarrow> getObjects (add_clone env now a s) = getObjects s @ [length (heap s)]"
  by (simp add: add_clone_def split_beta getObjects_canvas_add)

lemma add_clone_heap:
  "\<exists>ext. heap (add_clone env now a s) = heap s @ [heap s ! a] @ ext"
  using canvas_add_heap_grows [of env "fst (clone a s)" now "snd (clone a s)"]
  by (auto simp add: add_clone_def split_beta)

lemma shapes_at_grows:
  assumes "heap s' = heap s @ ext" "\<forall>a \<in> set as. a < length (heap s)"
  shows "shapes_at s' as = shapes_at s as"
  using assms by (simp add: shapes_at_def nth_append)

lemma shapes_at_Cons [simp]: "shapes_at s (a # as) = heap s ! a # shapes_at s as"
  by (simp add: shapes_at_def)

lemma shapes_at_Nil [simp]: "shapes_at s [] = []"
  by (simp add: shapes_at_def)

lemma shapes_at_append [simp]: "shapes_at s (as @ bs) = shapes_at s as @ shapes_at s bs"
  by (simp add: shapes_at_def)

lemma surface_shapes_fold_add_clone:
  assumes "fabricCanvas s \<noteq> None"
    and "\<forall>a \<in> set (getObjects s). a < length (heap s)"
    and "\<forall>a \<in> set as. a < length (heap s)"
  shows "surface_shapes (fold (add_clone env now) as s) = surface_shapes s @ shapes_at s as"
  using assms
proof (induction as arbitrary: s)
  case Nil
  then show ?case by simp
next
  case (Cons a as)
  let ?s1 = "add_clone env now a s"
  obtain ext where h1: "heap ?s1 = heap s @ [heap s ! a] @ ext"
    using add_clone_heap by blast
  have g1: "getObjects ?s1 = getObjects s @ [length (heap s)]"
    using Cons.prems(1) by (rule getObjects_add_clone)
  have f1: "fabricCanvas ?s1 \<noteq> None"
    using attached_add_clone [of s env now a] Cons.prems(1) by (simp add: attached_def)
  have v1: "\<forall>b \<in> set (getObjects ?s1). b < length (heap ?s1)"
    using Cons.prems(2) g1 h1 by auto
  have v2: "\<forall>b \<in> set as. b < length (heap ?s1)"
    using Cons.prems(3) h1 by auto
  have old: "shapes_at ?s1 (getObjects s) = shapes_at s (getObjects s)"
    using h1 Cons.prems(2) by (intro shapes_at_grows [where ext = "[heap s ! a] @ ext"]) simp_all
  have rest: "shapes_at ?s1 as = shapes_at s as"
    using h1 Cons.prems(3) by (intro shapes_at_grows [where ext = "[heap s ! a] @ ext"]) simp_all
  have new: "heap ?s1 ! length (heap s) = heap s ! a"
    by (simp add: h1 nth_append)
  have "surface_shapes (fold (add_clone env now) (a # as) s) =
        surface_shapes ?s1 @ shapes_at ?s1 as"
    using Cons.IH [OF f1 v1 v2] by simp
  also have "surface_shapes ?s1 = surface_shapes s @ [heap s ! a]"
    by (simp add: surface_shapes_def g1 old new)
  finally show ?case by (simp add: rest)
qed

lemma loadState_restores:
  assumes "c_canvas env" "fabricCanvas s \<noteq> None"
    and "\<forall>a \<in> set (objects st). a < length (heap s)"
    and "loadState env (Some st) now s = Inr s'"
  shows "surface_shapes s' = shapes_at s (objects st)"
proof -
  let ?s1 = "clear_objects env now s"
  have s': "s' = fold (add_clone env now) (objects st) ?s1"
    using assms(1,4) by (simp add: loadState_def Let_def)
  obtain ext where h1: "heap ?s1 = heap s @ ext"
    using clear_objects_heap_grows by blast
  have f1: "fabricCanvas ?s1 \<noteq> None"
    using attached_clear_objects [of s env now] assms(2) by (simp add: attached_def)
  have v: "\<forall>a \<in> set (objects st). a < length (heap ?s1)"
    using assms(3) h1 by auto
  have "surface_shapes s' = surface_shapes ?s1 @ shapes_at ?s1 (objects st)"
    unfolding s' using f1 v
    by (intro surface_shapes_fold_add_clone) (simp_all add: getObjects_clear_objects)
  also have "surface_shapes ?s1 = []"
    by (simp add: surface_shapes_def getObjects_clear_objects)
  also have "shapes_at ?s1 (objects st) = shapes_at s (objects st)"
    using h1 assms(3) by (rule shapes_at_grows)
  finally show ?thesis by simp
qed

lemma shapes_at_clone_all:
  assumes "\<forall>a \<in> set as. a < length (heap s)"
  shows "shapes_at (snd (clone_all as s)) (fst (clone_all as s)) = shapes_at s as"
  using assms
proof (induction as arbitrary: s)
  case Nil
  show ?case by simp
next
  case (Cons a as)
  let ?s1 = "snd (clone a s)"
  obtain ext where ext: "heap (snd (clone_all as ?s1)) = heap ?s1 @ ext"
    using clone_all_heap_grows by blast
  have v: "\<forall>b \<in> set as. b < length (heap ?s1)" using Cons.prems by auto
  have "shapes_at (snd (clone_all as ?s1)) (fst (clone_all as ?s1)) = shapes_at ?s1 as"
    using Cons.IH [OF v] .
  also have "shapes_at ?s1 as = shapes_at s as"
    using Cons.prems by (intro shapes_at_grows [where ext = "[heap s ! a]"]) simp_all
  finally show ?case
    by (simp add: split_beta Let_def ext nth_append)
qed

lemma loaded_with_rectangle_reached:
  "run [(1, ImageLoaded), (2, AddRectangle)] (mount True True) = Inr loaded_with_rectangle"
  by code_simp

section \<open>Before the image load, and without a surface\<close>

lemma step_before_load:
  assumes "\<not> canvas s" "history s = []" "historyIndex s = - 1"
    and "ev \<in> {AddRectangle, AddCircle, DeleteSelected, Undo, Redo, Export}"
  shows "step now ev s = Inr s"
  using assms
  by (auto simp add: addRectangle_def addCircle_def deleteSelected_def undo_def redo_def
      exportCanvas_def)



lemma shapes_at_historyIndex [simp]: "shapes_at (s\<lparr>historyIndex := i\<rparr>) as = shapes_at s as"
  by (simp add: shapes_at_def)

lemma shapes_at_modified:
  assumes "heap s' = (heap s)[a := v] @ ext" "\<forall>b \<in> set as. b < length (heap s) \<and> b \<noteq> a"
  shows "shapes_at s' as = shapes_at s as"
  using assms by (auto simp add: shapes_at_def nth_append)

section \<open>The cursor stays on the last snapshot\<close>

lemma captured_saveState: "c_canvas env \<Longrightarrow> captured env (saveState env now s)"
  by (simp add: captured_def saveState_history saveState_historyIndex clone_all_fst)

lemma captured_fire:
  assumes "c_canvas env"
    and "ev = ObjectAdded (Some a) \<or> ev = ObjectModified (Some a) \<or> ev = ObjectRemoved t"
  shows "captured env (fire env ev now s)"
  using assms by (auto simp add: handleModification_def captured_saveState)

lemma captured_canvas_add:
  assumes "c_canvas env" "fabricCanvas s \<noteq> None"
  shows "captured env (canvas_add env a now s)"
proof -
  from assms(2) obtain fc where fc: "fabricCanvas s = Some fc" by auto
  have "captured env (fire env (ObjectAdded (Some a)) now
          (s\<lparr>fabricCanvas := Some (fc\<lparr>canvas_objects := canvas_objects fc @ [a]\<rparr>)\<rparr>))"
    by (rule captured_fire [OF assms(1)]) simp
  then show ?thesis using fc by (simp add: canvas_add_def del: fire.simps)
qed

lemma captured_canvas_remove:
  assumes "c_canvas env" "a \<in> set (getObjects s)"
  shows "captured env (canvas_remove env a now s)"
proof -
  from assms(2) obtain fc where fc: "fabricCanvas s = Some fc" "a \<in> set (canvas_objects fc)"
    by (cases "fabricCanvas s") (simp_all add: getObjects_def)
  have "captured env (fire env (ObjectRemoved (Some a)) now
          (s\<lparr>fabricCanvas := Some (fc\<lparr>canvas_objects := remove1 a (canvas_objects fc),
               active_object := (if active_object fc = Some a then None else active_object fc)\<rparr>)\<rparr>))"
    by (rule captured_fire [OF assms(1)]) simp
  then show ?thesis using fc by (simp add: canvas_remove_def del: fire.simps)
qed

lemma captured_fold_remove:
  assumes "c_canvas env"
  shows "getObjects s = as @ zs \<Longrightarrow> as \<noteq> [] \<or> captured env s \<Longrightarrow>
         captured env (fold (\<lambda>obj. canvas_remove env obj now) as s)"
proof (induction as arbitrary: s)
  case Nil
  then show ?case by simp
next
  case (Cons a as)
  have "a \<in> set (getObjects s)" using Cons.prems(1) by simp
  from captured_canvas_remove [OF assms this]
  have c: "captured env (canvas_remove env a now s)" .
  have g: "getObjects (canvas_remove env a now s) = as @ zs"
    using Cons.prems(1) by (simp add: getObjects_canvas_remove)
  from Cons.IH [OF g] c show ?case by simp
qed

lemma captured_clear_objects:
  "c_canvas env \<Longrightarrow> getObjects s \<noteq> [] \<Longrightarrow> captured env (clear_objects env now s)"
  using captured_fold_remove [of env s "getObjects s" "[]" now]
  by (simp add: clear_objects_def)

lemma clear_objects_empty: "getObjects s = [] \<Longrightarrow> clear_objects env now s = s"
  by (simp add: clear_objects_def)

lemma fabricCanvas_add_clone: "fabricCanvas s \<noteq> None \<Longrightarrow> fabricCanvas (add_clone env now a s) \<noteq> None"
  using attached_add_clone [of s env now a] by (simp add: attached_def)

lemma captured_add_clone:
  assumes "c_canvas env" "fabricCanvas s \<noteq> None"
  shows "captured env (add_clone env now a s)"
  using captured_canvas_add [OF assms(1), of "snd (clone a s)" "fst (clone a s)" now] assms(2)
  by (simp add: add_clone_def split_beta)

lemma captured_fold_add_clone:
  assumes "c_canvas env"
  shows "fabricCanvas s \<noteq> None \<Longrightarrow> bs \<noteq> [] \<or> captured env s \<Longrightarrow>
         captured env (fold (add_clone env now) bs s)"
proof (induction bs arbitrary: s)
  case Nil
  then show ?case by simp
next
  case (Cons b bs)
  from captured_add_clone [OF assms Cons.prems(1)]
  have c: "captured env (add_clone env now b s)" .
  from Cons.IH [OF fabricCanvas_add_clone [OF Cons.prems(1)]] c show ?case by simp
qed

lemma length_getObjects_fold_add_clone:
  "fabricCanvas s \<noteq> None \<Longrightarrow>
   length (getObjects (fold (add_clone env now) bs s)) = length (getObjects s) + length bs"
proof (induction bs arbitrary: s)
  case Nil
  show ?case by simp
next
  case (Cons b bs)
  from Cons.IH [OF fabricCanvas_add_clone [OF Cons.prems]]
  show ?case using Cons.prems by (simp add: getObjects_add_clone)
qed

lemma loadState_captured:
  assumes "c_canvas env" "fabricCanvas s \<noteq> None" "getObjects s \<noteq> [] \<or> objects st \<noteq> []"
  shows "\<exists>s'. loadState env (Some st) now s = Inr s' \<and> captured env s' \<and>
              length (getObjects s') = length (objects st) \<and> attached s s'"
proof -
  let ?s1 = "clear_objects env now s"
  let ?s' = "fold (add_clone env now) (objects st) ?s1"
  have l: "loadState env (Some st) now s = Inr ?s'"
    using assms(1) by (simp add: loadState_def)
  have f1: "fabricCanvas ?s1 \<noteq> None"
    using attached_clear_objects [of s env now] assms(2) by (simp add: attached_def)
  have "objects st \<noteq> [] \<or> captured env ?s1"
    using assms(1,3) captured_clear_objects [of env s now] by auto
  from captured_fold_add_clone [OF assms(1) f1 this]
  have c: "captured env ?s'" .
  have n: "length (getObjects ?s') = length (objects st)"
    using length_getObjects_fold_add_clone [OF f1, of env now "objects st"]
    by (simp add: getObjects_clear_objects)
  from l c n attached_loadState [OF l] show ?thesis by simp
qed

lemma no_empty_pair_snoc:
  "no_empty_pair (h @ [x]) =
     (no_empty_pair h \<and> (h \<noteq> [] \<longrightarrow> objects (last h) \<noteq> [] \<or> objects x \<noteq> []))"
proof
  assume a: "no_empty_pair (h @ [x])"
  have "no_empty_pair h"
    unfolding no_empty_pair_def
  proof (intro allI impI)
    fix k assume k: "Suc k < length h"
    then have "Suc k < length (h @ [x])" by simp
    with a have "objects ((h @ [x]) ! k) \<noteq> [] \<or> objects ((h @ [x]) ! Suc k) \<noteq> []"
      unfolding no_empty_pair_def by blast
    with k show "objects (h ! k) \<noteq> [] \<or> objects (h ! Suc k) \<noteq> []"
      by (simp add: nth_append)
  qed
  moreover have "objects (last h) \<noteq> [] \<or> objects x \<noteq> []" if "h \<noteq> []"
  proof -
    from that obtain k where k: "length h = Suc k" by (cases h) auto
    then have "Suc k < length (h @ [x])" by simp
    with a have "objects ((h @ [x]) ! k) \<noteq> [] \<or> objects ((h @ [x]) ! Suc k) \<noteq> []"
      unfolding no_empty_pair_def by blast
    moreover have "(h @ [x]) ! k = last h"
      using k that by (simp add: nth_append last_conv_nth)
    moreover have "(h @ [x]) ! Suc k = x"
      using k by (metis nth_append_length)
    ultimately show ?thesis by simp
  qed
  ultimately show "no_empty_pair h \<and> (h \<noteq> [] \<longrightarrow> objects (last h) \<noteq> [] \<or> objects x \<noteq> [])"
    by blast
next
  assume a: "no_empty_pair h \<and> (h \<noteq> [] \<longrightarrow> objects (last h) \<noteq> [] \<or> objects x \<noteq> [])"
  show "no_empty_pair (h @ [x])"
    unfolding no_empty_pair_def
  proof (intro allI impI)
    fix k assume k: "Suc k < length (h @ [x])"
    show "objects ((h @ [x]) ! k) \<noteq> [] \<or> objects ((h @ [x]) ! Suc k) \<noteq> []"
    proof (cases "Suc k < length h")
      case True
      with a show ?thesis by (simp add: no_empty_pair_def nth_append)
    next
      case False
      with k have kk: "length h = Suc k" by simp
      then have ne: "h \<noteq> []" by auto
      have "(h @ [x]) ! k = last h"
        using kk ne by (simp add: nth_append last_conv_nth)
      moreover have "(h @ [x]) ! Suc k = x"
        using kk by (metis nth_append_length)
      ultimately show ?thesis using a ne by simp
    qed
  qed
qed

lemma last_size_snoc [simp]: "last_size (h @ [x]) = length (objects x)"
  by (cases h) (simp_all add: last_size_def)

lemma last_size_nonempty: "h \<noteq> [] \<Longrightarrow> last_size h = length (objects (last h))"
  by (cases h) (simp_all add: last_size_def)

lemma js_slice0_all: "js_slice0 h (int (length h)) = h"
  by (simp add: js_slice0_def)

lemma captured_tail:
  assumes "tail_inv s" "captured (render s) s'"
  shows "\<exists>x. history s' = history s @ [x] \<and> length (objects x) = length (getObjects s') \<and>
             historyIndex s' = int (length (history s))"
proof -
  have "historyIndex s + 1 = int (length (history s))"
    using assms(1) by (simp add: tail_inv_def)
  then show ?thesis using assms(2) by (simp add: captured_def js_slice0_all)
qed

lemma tail_inv_captured:
  assumes "tail_inv s" "captured (render s) s'" "canvas s'"
    and "getObjects s' \<noteq> [] \<or> getObjects s \<noteq> []"
  shows "tail_inv s'"
proof -
  from captured_tail [OF assms(1,2)] obtain x where
    x: "history s' = history s @ [x]" "length (objects x) = length (getObjects s')"
       "historyIndex s' = int (length (history s))" by blast
  have "history s \<noteq> [] \<longrightarrow> objects (last (history s)) \<noteq> [] \<or> objects x \<noteq> []"
  proof
    assume ne: "history s \<noteq> []"
    from assms(4) show "objects (last (history s)) \<noteq> [] \<or> objects x \<noteq> []"
    proof
      assume "getObjects s' \<noteq> []"
      with x(2) show ?thesis by auto
    next
      assume "getObjects s \<noteq> []"
      moreover have "length (objects (last (history s))) = length (getObjects s)"
        using assms(1) ne by (simp add: tail_inv_def last_size_nonempty)
      ultimately show ?thesis by auto
    qed
  qed
  then show ?thesis
    using assms(1,3) x by (simp add: tail_inv_def no_empty_pair_snoc)
qed

lemma captured_setActiveObject [simp]: "captured env (setActiveObject a s) = captured env s"
  by (simp add: captured_def)

lemma canvas_remove_absent: "a \<notin> set (getObjects s) \<Longrightarrow> canvas_remove env a now s = s"
  by (cases "fabricCanvas s") (simp_all add: canvas_remove_def getObjects_def)

lemma user_event_captured:
  assumes "canvas s" "fabricCanvas s \<noteq> None"
    and "uev = AddRectangle \<or> uev = AddCircle \<or>
         (uev = DeleteSelected \<and> (\<exists>b. getActiveObject s = Some b \<and> b \<in> set (getObjects s))) \<or>
         (\<exists>b v. uev = ModifyObject b v \<and> b \<in> set (getObjects s))"
  shows "\<exists>s'. step now uev s = Inr s' \<and> captured (render s) s' \<and> canvas s' \<and>
              (getObjects s' \<noteq> [] \<or> getObjects s \<noteq> [])"
proof -
  have added: "captured (render s) (canvas_add (render s) (length (heap s)) now (snd (new_object v s))) \<and>
               canvas (canvas_add (render s) (length (heap s)) now (snd (new_object v s))) \<and>
               getObjects (canvas_add (render s) (length (heap s)) now (snd (new_object v s))) \<noteq> []" for v
  proof -
    let ?s1 = "snd (new_object v s)"
    have f: "fabricCanvas ?s1 \<noteq> None" using assms(2) by simp
    have "captured (render s) (canvas_add (render s) (length (heap s)) now ?s1)"
      using f by (intro captured_canvas_add) (simp_all add: assms(1))
    moreover have "canvas (canvas_add (render s) (length (heap s)) now ?s1)"
      using attached_canvas_add [of ?s1 "render s" "length (heap s)" now] assms(1)
      by (simp add: attached_def)
    moreover have "getObjects (canvas_add (render s) (length (heap s)) now ?s1) \<noteq> []"
      using f by (simp add: getObjects_canvas_add)
    ultimately show ?thesis by blast
  qed
  from assms(3) consider
    "uev = AddRectangle" | "uev = AddCircle"
    | b where "uev = DeleteSelected" "getActiveObject s = Some b" "b \<in> set (getObjects s)"
    | b v where "uev = ModifyObject b v" "b \<in> set (getObjects s)"
    by blast
  then show ?thesis
  proof cases
    case 1
    then show ?thesis
      using assms(1) added [of "Rect 100 100 100 100 ''transparent'' ''black'' 2"]
      by (simp add: addRectangle_def split_beta)
  next
    case 2
    then show ?thesis
      using assms(1) added [of "Circle 100 100 50 ''transparent'' ''black'' 2"]
      by (simp add: addCircle_def split_beta)
  next
    case 3
    have "captured (render s) (canvas_remove (render s) b now s)"
      by (rule captured_canvas_remove) (simp_all add: assms(1) 3(3))
    moreover have "canvas (canvas_remove (render s) b now s)"
      using attached_canvas_remove [of s "render s" b now] assms(1) by (simp add: attached_def)
    moreover have "getObjects s \<noteq> []" using 3(3) by auto
    ultimately show ?thesis using 3 assms(1) by (simp add: deleteSelected_def)
  next
    case 4
    let ?s1 = "setActiveObject b (s\<lparr>heap := (heap s)[b := v]\<rparr>)"
    have "captured (render s) (fire (render s) (ObjectModified (Some b)) now ?s1)"
      by (rule captured_fire) (simp_all add: assms(1))
    moreover have "canvas (fire (render s) (ObjectModified (Some b)) now ?s1)"
      using attached_fire [of ?s1 "render s" "ObjectModified (Some b)" now] assms(1)
      by (simp add: attached_def del: fire.simps)
    moreover have "getObjects s \<noteq> []" using 4(2) by auto
    ultimately show ?thesis using 4 by (simp add: modify_object_def del: fire.simps)
  qed
qed

lemma tail_inv_frame:
  assumes "tail_inv s" "history s' = history s" "historyIndex s' = historyIndex s"
    and "canvas s \<longrightarrow> canvas s'" "getObjects s' = getObjects s"
  shows "tail_inv s'"
  using assms by (auto simp add: tail_inv_def)

lemma undo_captured:
  assumes "tail_inv s" "published_ok s" "0 < historyIndex s"
  shows "\<exists>s'. step now Undo s = Inr s' \<and> captured (render s) s' \<and> canvas s' \<and>
              (getObjects s' \<noteq> [] \<or> getObjects s \<noteq> [])"
proof -
  let ?h = "history s"
  let ?k = "nat (historyIndex s - 1)"
  have idx: "historyIndex s = int (length ?h) - 1" using assms(1) by (simp add: tail_inv_def)
  have len: "Suc ?k < length ?h" using idx assms(3) by simp
  have ne: "?h \<noteq> []" using len by auto
  have c: "canvas s" using assms(1) ne by (auto simp add: tail_inv_def)
  have f: "fabricCanvas s \<noteq> None" using assms(2) c by (simp add: published_ok_def)
  have sk: "Suc ?k = length ?h - 1" using idx assms(3) by simp
  have lastk: "last ?h = ?h ! Suc ?k"
    unfolding sk using ne by (rule last_conv_nth)
  have js: "js_index ?h (historyIndex s - 1) = Some (?h ! ?k)"
    using assms(3) idx by (simp add: js_index_def)
  have cond: "getObjects s \<noteq> [] \<or> objects (?h ! ?k) \<noteq> []"
  proof (cases "getObjects s = []")
    case True
    have "length (objects (last ?h)) = length (getObjects s)"
      using assms(1) ne by (simp add: tail_inv_def last_size_nonempty)
    with True have "objects (?h ! Suc ?k) = []" by (simp add: lastk)
    moreover have "objects (?h ! ?k) \<noteq> [] \<or> objects (?h ! Suc ?k) \<noteq> []"
      using assms(1) len by (simp add: tail_inv_def no_empty_pair_def)
    ultimately show ?thesis by simp
  next
    case False
    then show ?thesis by simp
  qed
  let ?s0 = "s\<lparr>historyIndex := historyIndex s - 1\<rparr>"
  have "\<exists>s'. loadState (render s) (Some (?h ! ?k)) now ?s0 = Inr s' \<and> captured (render s) s' \<and>
              length (getObjects s') = length (objects (?h ! ?k)) \<and> attached ?s0 s'"
    using c f cond by (intro loadState_captured) simp_all
  then obtain s' where s': "loadState (render s) (Some (?h ! ?k)) now ?s0 = Inr s'"
    "captured (render s) s'" "length (getObjects s') = length (objects (?h ! ?k))" "attached ?s0 s'"
    by blast
  have "step now Undo s = Inr s'"
    using assms(3) js s'(1) by (simp add: undo_def Let_def)
  moreover have "canvas s'" using s'(4) c by (simp add: attached_def)
  moreover have "getObjects s' \<noteq> [] \<or> getObjects s \<noteq> []"
    using cond s'(3) by auto
  ultimately show ?thesis using s'(2) by blast
qed

lemma tail_inv_step:
  assumes "tail_inv s" "published_ok s" "step now ev s = Inr s'"
  shows "tail_inv s'"
proof -
  have idx: "historyIndex s = int (length (history s)) - 1"
    using assms(1) by (simp add: tail_inv_def)
  have user: "tail_inv s'"
    if c: "canvas s" and u: "ev = AddRectangle \<or> ev = AddCircle \<or>
         (ev = DeleteSelected \<and> (\<exists>b. getActiveObject s = Some b \<and> b \<in> set (getObjects s))) \<or>
         (\<exists>b v. ev = ModifyObject b v \<and> b \<in> set (getObjects s))"
  proof -
    have f: "fabricCanvas s \<noteq> None" using assms(2) c by (simp add: published_ok_def)
    from user_event_captured [OF c f u, of now] obtain s2 where
      s2: "step now ev s = Inr s2" "captured (render s) s2" "canvas s2"
          "getObjects s2 \<noteq> [] \<or> getObjects s \<noteq> []" by blast
    from s2(1) assms(3) have "s2 = s'" by simp
    with s2 show ?thesis using tail_inv_captured [OF assms(1), of s'] by simp
  qed
  have surface: "canvas s" if "getObjects s \<noteq> []"
  proof (rule ccontr)
    assume "\<not> canvas s"
    with assms(1) have "history s = []" by (simp add: tail_inv_def)
    with assms(1) that show False by (simp add: tail_inv_def last_size_def)
  qed
  show ?thesis
  proof (cases ev)
    case ImageLoaded
    show ?thesis
    proof (cases "fabricCanvas s")
      case None
      with ImageLoaded assms(1,3) show ?thesis by (simp add: image_loaded_def)
    next
      case (Some fc)
      with ImageLoaded assms(3) have
        "s' = s\<lparr>fabricCanvas := Some (fc\<lparr>background_set := True\<rparr>), canvas := True\<rparr>"
        by (simp add: image_loaded_def mount_closure_def)
      with Some show ?thesis
        by (intro tail_inv_frame [OF assms(1)]) (simp_all add: getObjects_def)
    qed
  next
    case AddRectangle
    show ?thesis
    proof (cases "canvas s")
      case True
      with AddRectangle show ?thesis by (simp add: user)
    next
      case False
      with AddRectangle assms(1,3) show ?thesis by (simp add: addRectangle_def)
    qed
  next
    case AddCircle
    show ?thesis
    proof (cases "canvas s")
      case True
      with AddCircle show ?thesis by (simp add: user)
    next
      case False
      with AddCircle assms(1,3) show ?thesis by (simp add: addCircle_def)
    qed
  next
    case DeleteSelected
    show ?thesis
    proof (cases "canvas s \<and> (\<exists>b. getActiveObject s = Some b \<and> b \<in> set (getObjects s))")
      case True
      with DeleteSelected show ?thesis by (simp add: user)
    next
      case False
      then have "s' = s"
        using DeleteSelected assms(3)
        by (auto simp add: deleteSelected_def canvas_remove_absent split: option.splits if_splits)
      with assms(1) show ?thesis by simp
    qed
  next
    case Undo
    show ?thesis
    proof (cases "0 < historyIndex s")
      case True
      from undo_captured [OF assms(1,2) True, of now] obtain s2 where
        s2: "step now Undo s = Inr s2" "captured (render s) s2" "canvas s2"
            "getObjects s2 \<noteq> [] \<or> getObjects s \<noteq> []" by blast
      from s2(1) assms(3) Undo have "s2 = s'" by simp
      with s2 show ?thesis using tail_inv_captured [OF assms(1), of s'] by simp
    next
      case False
      with Undo assms(1,3) show ?thesis by (simp add: undo_def)
    qed
  next
    case Redo
    with assms(1,3) idx show ?thesis by (simp add: redo_def)
  next
    case Export
    with assms(3) have "s' = s \<or> s' = s\<lparr>downloads := downloads s @ [''canvas-export.png'']\<rparr>"
      by (auto simp add: exportCanvas_def split: if_splits)
    then show ?thesis
    proof
      assume "s' = s"
      with assms(1) show ?thesis by simp
    next
      assume e: "s' = s\<lparr>downloads := downloads s @ [''canvas-export.png'']\<rparr>"
      show ?thesis by (rule tail_inv_frame [OF assms(1)]) (simp_all add: e)
    qed
  next
    case (SelectObject a)
    with assms(3) have "s' = s \<or> s' = setActiveObject a s"
      by (auto simp add: select_object_def split: if_splits)
    then show ?thesis
    proof
      assume "s' = s"
      with assms(1) show ?thesis by simp
    next
      assume e: "s' = setActiveObject a s"
      show ?thesis by (rule tail_inv_frame [OF assms(1)]) (simp_all add: e)
    qed
  next
    case Deselect
    with assms(3) have e: "s' = deselect s" by simp
    show ?thesis by (rule tail_inv_frame [OF assms(1)]) (simp_all add: e)
  next
    case (ModifyObject a v)
    show ?thesis
    proof (cases "a \<in> set (getObjects s)")
      case True
      then have "canvas s" by (intro surface) auto
      with ModifyObject True show ?thesis by (simp add: user)
    next
      case False
      with ModifyObject assms(1,3) show ?thesis by (simp add: modify_object_def)
    qed
  qed
qed

lemma tail_inv_run:
  "tail_inv s \<Longrightarrow> published_ok s \<Longrightarrow> run evs s = Inr s' \<Longrightarrow> tail_inv s'"
proof (induction evs arbitrary: s)
  case Nil
  then show ?case by simp
next
  case (Cons e evs)
  obtain now ev where e: "e = (now, ev)" by (cases e)
  from Cons.prems(3) e obtain s1 where s1: "step now ev s = Inr s1" "run evs s1 = Inr s'"
    by (auto split: sum.splits)
  from Cons.IH [OF tail_inv_step [OF Cons.prems(1,2) s1(1)] published_ok_step [OF Cons.prems(2) s1(1)] s1(2)]
  show ?case .
qed

lemma tail_inv_mount: "tail_inv (mount element xo)"
  by (simp add: tail_inv_def mount_def last_size_def no_empty_pair_def getObjects_def)

lemma cursor_on_last_snapshot:
  "run evs (mount element xo) = Inr s \<Longrightarrow> historyIndex s = int (length (history s)) - 1"
  using tail_inv_run [OF tail_inv_mount published_ok_mount] by (simp add: tail_inv_def)

lemma step_origin:
  assumes "step now ev s = Inr s'"
  shows "imageCrossOrigin s' = imageCrossOrigin s"
proof (cases "ev = ImageLoaded")
  case True
  with assms show ?thesis
    by (auto simp add: image_loaded_def mount_closure_def split: option.splits)
next
  case False
  from attached_step [OF assms False] show ?thesis by (simp add: attached_def)
qed

lemma run_same_origin:
  "cursor_ok s \<Longrightarrow> \<not> imageCrossOrigin s \<Longrightarrow> \<exists>s'. run evs s = Inr s' \<and> cursor_ok s'"
proof (induction evs arbitrary: s)
  case Nil
  then show ?case by simp
next
  case (Cons e evs)
  obtain now ev where e: "e = (now, ev)" by (cases e)
  have "\<not> tainted s" using Cons.prems(2) by (simp add: tainted_def)
  with cursor_ok_step [OF Cons.prems(1), of now ev] obtain s1 where
    s1: "step now ev s = Inr s1" "cursor_ok s1" by blast
  have "\<not> imageCrossOrigin s1" using step_origin [OF s1(1)] Cons.prems(2) by simp
  from Cons.IH [OF s1(2) this] show ?case using e s1(1) by simp
qed

section \<open>The properties of the history log\<close>

subsection \<open>C1: every capture makes the log one longer\<close>



subsection \<open>C3: undo and the snapshot sequence\<close>

text \<open>
  C3 says that undo and redo never change the snapshot sequence. After the image load,
  Add Rectangle and Add Circle, the log has two snapshots and the cursor is 1; a click on
  Undo leaves three snapshots and the cursor on 2, with the rectangle alone on the
  surface: the events fired by \<^verbatim>\<open>loadState\<close> have triggered a capture.
\<close>

theorem undo_changes_the_log:
  "(case run [(1, ImageLoaded), (2, AddRectangle), (3, AddCircle)] (mount True xo) of
      Inl e \<Rightarrow> False
    | Inr s \<Rightarrow>
        (case step 4 Undo s of
           Inl e \<Rightarrow> False
         | Inr s' \<Rightarrow>
             length (history s) = 2 \<and> historyIndex s = 1 \<and>
             length (history s') = 3 \<and> historyIndex s' = 2 \<and>
             surface_shapes s' = [Rect 100 100 100 100 ''transparent'' ''black'' 2]))"
  by code_simp

subsection \<open>C4: a capture discards the redo branch\<close>

text \<open>
  C4: in a component whose cursor is an index into the log, as after one or more undos,
  the next capture discards every snapshot beyond the cursor and then appends the new
  one: the log has cursor + 2 snapshots, those up to the cursor are the old ones, the last
  one holds copies of the shapes on the surface and the time of the capture, and the
  cursor moves to it.
\<close>

theorem capture_discards_redo_branch:
  assumes "canvas s" and "0 \<le> historyIndex s" and "historyIndex s < int (length (history s))"
    and "\<forall>a \<in> set (getObjects s). a < length (heap s)"
  shows "length (history (saveState (render s) now s)) = nat (historyIndex s) + 2 \<and>
         (\<forall>k \<le> nat (historyIndex s). history (saveState (render s) now s) ! k = history s ! k) \<and>
         shapes_at (saveState (render s) now s)
           (objects (history (saveState (render s) now s) ! (nat (historyIndex s) + 1))) = surface_shapes s \<and>
         timestamp (history (saveState (render s) now s) ! (nat (historyIndex s) + 1)) = now \<and>
         historyIndex (saveState (render s) now s) = historyIndex s + 1"
proof -
  let ?n = "nat (historyIndex s)"
  let ?s' = "saveState (render s) now s"
  have sl: "js_slice0 (history s) (historyIndex s + 1) = take (?n + 1) (history s)"
    using assms(2) by (simp add: js_slice0_def nat_add_distrib)
  have len: "length (take (?n + 1) (history s)) = ?n + 1"
    using assms(2,3) by simp
  have h: "history ?s' = take (?n + 1) (history s) @
             [\<lparr>objects = fst (clone_all (getObjects s) s), timestamp = now\<rparr>]"
    using assms(1) by (simp add: saveState_history sl)
  have last: "history ?s' ! Suc ?n = \<lparr>objects = fst (clone_all (getObjects s) s), timestamp = now\<rparr>"
    unfolding h using len by (metis Suc_eq_plus1 nth_append_length)
  have heap': "heap ?s' = heap (snd (clone_all (getObjects s) s))"
    using assms(1) by (simp add: saveState_def split_beta Let_def)
  have "shapes_at ?s' (fst (clone_all (getObjects s) s)) = surface_shapes s"
    using shapes_at_clone_all [OF assms(4)] by (simp add: shapes_at_def heap' surface_shapes_def)
  moreover have "\<forall>k \<le> ?n. history ?s' ! k = history s ! k"
    unfolding h using len by (simp add: nth_append)
  moreover have "length (history ?s') = ?n + 2"
    unfolding h using len by simp
  moreover have "historyIndex ?s' = historyIndex s + 1"
    using assms(1,2) len by (simp add: saveState_historyIndex sl)
  ultimately show ?thesis by (simp add: last)
qed

theorem capture_discards_redo_branch_witness:
  "canvas undone_state \<and> historyIndex undone_state = 1 \<and> length (history undone_state) = 4 \<and>
   length (history (saveState (render undone_state) 9 undone_state)) = 3 \<and>
   history (saveState (render undone_state) 9 undone_state) ! 0 = history undone_state ! 0 \<and>
   history (saveState (render undone_state) 9 undone_state) ! 1 = history undone_state ! 1 \<and>
   shapes_at (saveState (render undone_state) 9 undone_state)
     (objects (history (saveState (render undone_state) 9 undone_state) ! 2)) = surface_shapes undone_state \<and>
   historyIndex (saveState (render undone_state) 9 undone_state) = 2"
proof -
  have h: "canvas undone_state" "0 \<le> historyIndex undone_state"
    "historyIndex undone_state < int (length (history undone_state))"
    "\<forall>a \<in> set (getObjects undone_state). a < length (heap undone_state)"
    by (simp_all add: undone_state_def getObjects_def)
  have i: "historyIndex undone_state = 1" "length (history undone_state) = 4"
    by (simp_all add: undone_state_def)
  from capture_discards_redo_branch [OF h, of 9] h(1) i show ?thesis
    by (simp add: numeral_2_eq_2)
qed

subsection \<open>C5: undo and redo at the ends of the log\<close>

text \<open>
  C5: undo with the cursor at 0 and redo with the cursor at the last index are no-ops:
  the whole component, and so the shapes on the surface, the cursor and the log, is
  unchanged.
\<close>

theorem undo_redo_boundary_noop:
  "(historyIndex s = 0 \<longrightarrow> step now Undo s = Inr s) \<and>
   (historyIndex s = int (length (history s)) - 1 \<longrightarrow> step now Redo s = Inr s)"
  by (simp add: undo_def redo_def)

theorem undo_redo_boundary_noop_witness:
  "historyIndex loaded_with_rectangle = 0 \<and>
   step 5 Undo loaded_with_rectangle = Inr loaded_with_rectangle \<and>
   historyIndex loaded_with_rectangle = int (length (history loaded_with_rectangle)) - 1 \<and>
   step 5 Redo loaded_with_rectangle = Inr loaded_with_rectangle"
proof -
  have h: "historyIndex loaded_with_rectangle = 0"
    "historyIndex loaded_with_rectangle = int (length (history loaded_with_rectangle)) - 1"
    by (simp_all add: loaded_with_rectangle_def)
  from undo_redo_boundary_noop [of loaded_with_rectangle 5] h show ?thesis by blast
qed

subsection \<open>C6: the snapshot at the image load\<close>

text \<open>
  C6 says that the image load performs the first capture, so that two additions give a
  log of length 3 with cursor 2. The \<^verbatim>\<open>saveState\<close> called at the image load is the one
  of the first render, where \<^verbatim>\<open>canvas\<close> is null, so it captures nothing: after the
  load the log is empty and the cursor is \<open>-1\<close>, and after the two additions the log
  has two snapshots and the cursor is 1, at whatever times the three events happen.
\<close>

theorem image_load_captures_nothing:
  "history (image_loaded t (mount True xo)) = [] \<and>
   historyIndex (image_loaded t (mount True xo)) = - 1 \<and>
   canvas (image_loaded t (mount True xo)) \<and>
   (case run [(t1, ImageLoaded), (t2, AddRectangle), (t3, AddCircle)] (mount True xo) of
      Inl e \<Rightarrow> False
    | Inr s \<Rightarrow> length (history s) = 2 \<and> historyIndex s = 1)"
  by (simp add: mount_def image_loaded_def mount_closure_def addRectangle_def addCircle_def
    new_object_def canvas_add_def handleModification_def saveState_def getObjects_def clone_def
    setActiveObject_def js_slice0_def render_def)

subsection \<open>C7: snapshots and live shapes are separate objects\<close>

text \<open>
  C7: in every component reached from a mount, and for every snapshot of its log: no
  object of the snapshot is on the surface; no event, and so no change of a live shape,
  changes the shapes the snapshot holds; and \<^verbatim>\<open>loadState\<close> of the snapshot puts on the
  surface shapes equal to the stored ones that are new objects, none of them an object
  of the snapshot.
\<close>

theorem snapshot_isolation:
  assumes "run evs (mount element xo) = Inr s" and "st \<in> set (history s)"
  shows "set (objects st) \<inter> set (getObjects s) = {} \<and>
         (step now ev s = Inr s' \<longrightarrow> shapes_at s' (objects st) = shapes_at s (objects st)) \<and>
         (canvas s \<longrightarrow> loadState (render s) (Some st) t (s\<lparr>historyIndex := i\<rparr>) = Inr s2 \<longrightarrow>
            surface_shapes s2 = shapes_at s (objects st) \<and>
            set (getObjects s2) \<inter> set (objects st) = {})"
proof -
  have iso: "isolated s"
    using isolated_run [OF isolated_mount assms(1)] .
  have pub: "published_ok s"
    using published_ok_run [OF published_ok_mount assms(1)] .
  have stored: "\<forall>b \<in> set (objects st). b < length (heap s) \<and> b \<notin> set (getObjects s)"
    using iso snapshot_addrs_mem [OF assms(2)] by (auto simp add: isolated_def isolated_from_def)
  have apart: "set (objects st) \<inter> set (getObjects s) = {}"
    using stored by auto
  have stable: "shapes_at s' (objects st) = shapes_at s (objects st)" if "step now ev s = Inr s'"
  proof -
    from step_heap [OF that] consider
      ext where "heap s' = heap s @ ext"
      | a v ext where "a \<in> set (getObjects s)" "heap s' = (heap s)[a := v] @ ext"
      by blast
    then show ?thesis
    proof cases
      case 1
      then show ?thesis using stored by (intro shapes_at_grows) auto
    next
      case 2
      then show ?thesis using stored by (intro shapes_at_modified [where a = a and v = v]) auto
    qed
  qed
  have restore: "surface_shapes s2 = shapes_at s (objects st) \<and>
                 set (getObjects s2) \<inter> set (objects st) = {}"
    if c: "canvas s" and l: "loadState (render s) (Some st) t (s\<lparr>historyIndex := i\<rparr>) = Inr s2"
  proof -
    have "handler_inv (render s) (s\<lparr>historyIndex := i\<rparr>)"
      using iso by (simp add: handler_inv_render)
    from handler_inv_loadState [OF this l] have "isolated_from (history s) s2"
      by (simp add: handler_inv_def)
    then have d: "set (getObjects s2) \<inter> set (objects st) = {}"
      using snapshot_addrs_mem [OF assms(2)] by (auto simp add: isolated_from_def)
    have "surface_shapes s2 = shapes_at (s\<lparr>historyIndex := i\<rparr>) (objects st)"
      using c pub stored l
      by (intro loadState_restores [where env = "render s" and now = t]) (simp_all add: published_ok_def)
    with d show ?thesis by simp
  qed
  from apart stable restore show ?thesis by blast
qed

theorem snapshot_isolation_witness:
  "run [(1, ImageLoaded), (2, AddRectangle)] (mount True True) = Inr loaded_with_rectangle \<and>
   \<lparr>objects = [1], timestamp = 2\<rparr> \<in> set (history loaded_with_rectangle) \<and>
   set [1] \<inter> set (getObjects loaded_with_rectangle) = {} \<and>
   step 3 (ModifyObject 0 (Rect 7 8 9 10 ''red'' ''blue'' 1)) loaded_with_rectangle =
     Inr (modify_object (render loaded_with_rectangle) 0 (Rect 7 8 9 10 ''red'' ''blue'' 1) 3 loaded_with_rectangle) \<and>
   surface_shapes (modify_object (render loaded_with_rectangle) 0 (Rect 7 8 9 10 ''red'' ''blue'' 1) 3 loaded_with_rectangle) =
     [Rect 7 8 9 10 ''red'' ''blue'' 1] \<and>
   shapes_at (modify_object (render loaded_with_rectangle) 0 (Rect 7 8 9 10 ''red'' ''blue'' 1) 3 loaded_with_rectangle) [1] =
     [Rect 100 100 100 100 ''transparent'' ''black'' 2] \<and>
   canvas loaded_with_rectangle \<and>
   loadState (render loaded_with_rectangle) (Some \<lparr>objects = [1], timestamp = 2\<rparr>) 4
       (loaded_with_rectangle\<lparr>historyIndex := 0\<rparr>) =
     Inr (fold (add_clone (render loaded_with_rectangle) 4) [1]
            (clear_objects (render loaded_with_rectangle) 4 (loaded_with_rectangle\<lparr>historyIndex := 0\<rparr>))) \<and>
   surface_shapes (fold (add_clone (render loaded_with_rectangle) 4) [1]
            (clear_objects (render loaded_with_rectangle) 4 (loaded_with_rectangle\<lparr>historyIndex := 0\<rparr>))) =
     [Rect 100 100 100 100 ''transparent'' ''black'' 2] \<and>
   set (getObjects (fold (add_clone (render loaded_with_rectangle) 4) [1]
            (clear_objects (render loaded_with_rectangle) 4 (loaded_with_rectangle\<lparr>historyIndex := 0\<rparr>)))) \<inter> set [1] = {}"
proof -
  let ?st = "\<lparr>objects = [1], timestamp = 2\<rparr>"
  let ?v = "Rect 7 8 9 10 ''red'' ''blue'' 1"
  let ?s' = "modify_object (render loaded_with_rectangle) 0 ?v 3 loaded_with_rectangle"
  let ?s2 = "fold (add_clone (render loaded_with_rectangle) 4) [1]
            (clear_objects (render loaded_with_rectangle) 4 (loaded_with_rectangle\<lparr>historyIndex := 0\<rparr>))"
  have r: "run [(1, ImageLoaded), (2, AddRectangle)] (mount True True) = Inr loaded_with_rectangle"
    by (rule loaded_with_rectangle_reached)
  have m: "?st \<in> set (history loaded_with_rectangle)"
    by (simp add: loaded_with_rectangle_def)
  have st: "step 3 (ModifyObject 0 ?v) loaded_with_rectangle = Inr ?s'" by simp
  have c: "canvas loaded_with_rectangle" by (simp add: loaded_with_rectangle_def)
  have l: "loadState (render loaded_with_rectangle) (Some ?st) 4
       (loaded_with_rectangle\<lparr>historyIndex := 0\<rparr>) = Inr ?s2"
    using c by (simp add: loadState_def)
  have sh: "shapes_at loaded_with_rectangle [1] = [Rect 100 100 100 100 ''transparent'' ''black'' 2]"
    by (simp add: loaded_with_rectangle_def)
  have live: "surface_shapes ?s' = [?v]"
    by code_simp
  from snapshot_isolation [OF r m, of 3 "ModifyObject 0 ?v" ?s' 4 0 ?s2] st c l sh live r m
  show ?thesis by simp
qed

subsection \<open>C8: the cursor is -1 or an index into the log\<close>

text \<open>
  C8: every run of events from a mount that does not end in the throw of an export ends
  with the cursor at least \<open>-1\<close> and below the length of the log, and at \<open>-1\<close>
  exactly when the log is empty; such is every run without an export, and every run with
  an image of the page's origin. The property is kept by a capture, from whatever render
  its closure is, and by every event that returns; the only event that may not return is
  an export, which throws before it has changed anything.
\<close>

theorem cursor_always_valid:
  "((\<exists>s. run evs (mount element xo) = Inr s \<and>
         - 1 \<le> historyIndex s \<and> historyIndex s < int (length (history s)) \<and>
         (historyIndex s = - 1) = (history s = [])) \<or>
    run evs (mount element xo) = Inl SecurityError) \<and>
   (\<not> xo \<or> Export \<notin> snd ` set evs \<longrightarrow>
      (\<exists>s. run evs (mount element xo) = Inr s \<and>
           - 1 \<le> historyIndex s \<and> historyIndex s < int (length (history s)) \<and>
           (historyIndex s = - 1) = (history s = []))) \<and>
   (cursor_ok s0 \<longrightarrow>
      cursor_ok (saveState env now s0) \<and>
      ((\<exists>s1. step now ev s0 = Inr s1 \<and> cursor_ok s1) \<or>
       (ev = Export \<and> step now ev s0 = Inl SecurityError)))"
proof -
  have a: "(\<exists>s. run evs (mount element xo) = Inr s \<and>
         - 1 \<le> historyIndex s \<and> historyIndex s < int (length (history s)) \<and>
         (historyIndex s = - 1) = (history s = [])) \<or>
    run evs (mount element xo) = Inl SecurityError"
    using cursor_ok_run [OF cursor_ok_mount, of evs element xo] by (simp add: cursor_ok_def)
  have b: "\<exists>s. run evs (mount element xo) = Inr s \<and>
           - 1 \<le> historyIndex s \<and> historyIndex s < int (length (history s)) \<and>
           (historyIndex s = - 1) = (history s = [])"
    if "\<not> xo \<or> Export \<notin> snd ` set evs"
    using that
  proof
    assume "\<not> xo"
    then have "\<not> imageCrossOrigin (mount element xo)" by (simp add: mount_def)
    from run_same_origin [OF cursor_ok_mount this, of evs] show ?thesis
      by (simp add: cursor_ok_def)
  next
    assume "Export \<notin> snd ` set evs"
    from run_without_export [OF cursor_ok_mount this, of element xo] show ?thesis
      by (simp add: cursor_ok_def)
  qed
  have c: "cursor_ok (saveState env now s0) \<and>
      ((\<exists>s1. step now ev s0 = Inr s1 \<and> cursor_ok s1) \<or>
       (ev = Export \<and> step now ev s0 = Inl SecurityError))" if "cursor_ok s0"
    using cursor_ok_saveState [OF that, of env now] cursor_ok_step [OF that, of now ev] by blast
  from a b c show ?thesis by blast
qed

theorem cursor_always_valid_witness:
  "cursor_ok undone_state \<and>
   cursor_ok (saveState (render undone_state) 9 undone_state) \<and>
   (\<exists>s1. step 9 Undo undone_state = Inr s1 \<and> cursor_ok s1) \<and>
   Export \<notin> snd ` set [(1::nat, ImageLoaded), (2, AddRectangle), (3, DeleteSelected), (4, Undo)] \<and>
   (\<exists>s. run [(1, ImageLoaded), (2, AddRectangle), (3, DeleteSelected), (4, Undo)] (mount True True) = Inr s \<and>
        - 1 \<le> historyIndex s \<and> historyIndex s < int (length (history s)) \<and>
        (historyIndex s = - 1) = (history s = []))"
proof -
  have h: "cursor_ok undone_state"
    by (simp add: cursor_ok_def undone_state_def)
  have x: "Export \<notin> snd ` set [(1::nat, ImageLoaded), (2, AddRectangle), (3, DeleteSelected), (4, Undo)]"
    by simp
  from cursor_always_valid
    [where evs = "[(1, ImageLoaded), (2, AddRectangle), (3, DeleteSelected), (4, Undo)]"
       and element = True and xo = True and ?s0.0 = undone_state and env = "render undone_state"
       and now = 9 and ev = Undo] h x
  show ?thesis by auto
qed

subsection \<open>C9: which operations throw\<close>




subsection \<open>C10: the controls before the image load\<close>

text \<open>
  C10: before the image load has set \<^verbatim>\<open>canvas\<close>, every run of clicks on the six
  controls leaves the component as it was mounted: the log empty, the cursor \<open>-1\<close>,
  nothing on the surface and nothing exported.
\<close>

theorem controls_before_load_are_noops:
  assumes "\<forall>e \<in> set evs. snd e \<in> {AddRectangle, AddCircle, DeleteSelected, Undo, Redo, Export}"
  shows "run evs (mount element xo) = Inr (mount element xo) \<and>
         history (mount element xo) = [] \<and> historyIndex (mount element xo) = - 1 \<and>
         \<not> canvas (mount element xo)"
proof -
  have m: "\<not> canvas (mount element xo)" "history (mount element xo) = []"
    "historyIndex (mount element xo) = - 1"
    by (simp_all add: mount_def)
  have "run evs (mount element xo) = Inr (mount element xo)"
    using assms
  proof (induction evs)
    case Nil
    show ?case by simp
  next
    case (Cons e evs)
    obtain now ev where e: "e = (now, ev)" by (cases e)
    have "ev \<in> {AddRectangle, AddCircle, DeleteSelected, Undo, Redo, Export}"
      using Cons.prems e by simp
    from step_before_load [OF m this] have "step now ev (mount element xo) = Inr (mount element xo)" .
    with Cons e show ?case by simp
  qed
  with m show ?thesis by simp
qed

theorem controls_before_load_are_noops_witness:
  "run [(1, AddRectangle), (2, AddCircle), (3, DeleteSelected), (4, Undo), (5, Redo), (6, Export)]
     (mount True True) = Inr (mount True True) \<and>
   history (mount True True) = [] \<and> historyIndex (mount True True) = - 1 \<and> \<not> canvas (mount True True)"
proof -
  have h: "\<forall>e \<in> set [(1::nat, AddRectangle), (2, AddCircle), (3, DeleteSelected), (4, Undo),
      (5, Redo), (6, Export)].
      snd e \<in> {AddRectangle, AddCircle, DeleteSelected, Undo, Redo, Export}" by simp
  from controls_before_load_are_noops [OF h, of True] show ?thesis .
qed

end
